theory Spec2Isabelle
  imports Main "HOL-Library.AList" "HOL-Library.Sublist"
begin

section \<open>The literate-source to Markdown converter (literate-to-md.js)\<close>

text \<open>
  The script walks an input tree and, for every file whose extension is configured,
  rewrites the file's text with four regular expressions built from the configured
  delimiters, and writes the result as a Markdown file. The rewriting is decided by
  the ECMAScript semantics of \<^verbatim>\<open>new RegExp\<close>, \<^verbatim>\<open>RegExp.prototype.test\<close> and
  \<^verbatim>\<open>String.prototype.replace\<close>, so the embedding starts with the part of that semantics
  the script relies on: a backtracking matcher, the pattern syntax, and the expansion
  of replacement templates. Strings are lists of code units (\<^typ>\<open>char\<close>).
\<close>

subsection \<open>Characters\<close>

abbreviation LF :: char where "LF \<equiv> CHR 0x0A"
abbreviation CR :: char where "CR \<equiv> CHR 0x0D"
abbreviation BSL :: char where "BSL \<equiv> CHR 0x5C"
abbreviation BQ :: char where "BQ \<equiv> CHR 0x60"

subsection \<open>Regular expressions and the backtracking matcher\<close>

text \<open>
  The abstract syntax covers the constructs the script's patterns use and the ones a
  badly escaped delimiter could introduce: pattern characters, the dot, a character
  class given by its members, the assertions \<^verbatim>\<open>^\<close> and \<^verbatim>\<open>$\<close> (no multiline flag),
  capturing groups, the greedy quantifiers \<^verbatim>\<open>*\<close>, \<^verbatim>\<open>+\<close>, \<^verbatim>\<open>?\<close>, sequence and
  alternative.
\<close>

datatype regex =
    Empty
  | Chr char
  | AnyChar
  | Cls "char list"
  | Bol
  | Eol
  | Group nat regex
  | Star regex
  | Plus regex
  | Opt regex
  | Seq regex regex
  | Alt regex regex

text \<open>
  A match state is the index reached in the input, the input that remains from there,
  and the captures: ECMAScript's MatchState.
\<close>

type_synonym captures = "nat \<rightharpoonup> string"
type_synonym mstate = "nat \<times> string \<times> captures"

fun groups_of :: "regex \<Rightarrow> nat list" where
  "groups_of (Group n r) = n # groups_of r"
| "groups_of (Star r) = groups_of r"
| "groups_of (Plus r) = groups_of r"
| "groups_of (Opt r) = groups_of r"
| "groups_of (Seq a b) = groups_of a @ groups_of b"
| "groups_of (Alt a b) = groups_of a @ groups_of b"
| "groups_of _ = []"

definition clear :: "nat list \<Rightarrow> captures \<Rightarrow> captures" where
  "clear ns caps = (\<lambda>k. if k \<in> set ns then None else caps k)"

fun rsize :: "regex \<Rightarrow> nat" where
  "rsize (Group n r) = Suc (rsize r)"
| "rsize (Star r) = Suc (rsize r)"
| "rsize (Plus r) = Suc (Suc (rsize r))"
| "rsize (Opt r) = Suc (rsize r)"
| "rsize (Seq a b) = Suc (rsize a + rsize b)"
| "rsize (Alt a b) = Suc (rsize a + rsize b)"
| "rsize _ = 0"

text \<open>
  \<open>matcher r st\<close> lists the states in which \<open>r\<close> can end when started in \<open>st\<close>, in the
  order in which the backtracking search of ECMAScript tries them: the head of the list
  is the match the engine reports. Quantifiers are greedy; every iteration of a
  quantifier first clears the captures of the groups inside it; an iteration of \<^verbatim>\<open>*\<close>
  or \<^verbatim>\<open>?\<close> that consumes nothing is rejected (RepeatMatcher's empty check; a matcher
  only moves forward, so "the end index is unchanged" is "nothing was consumed").
\<close>

function matcher :: "regex \<Rightarrow> mstate \<Rightarrow> mstate list" where
  "matcher Empty st = [st]"
| "matcher (Chr c) (i, s, caps) =
     (case s of [] \<Rightarrow> [] | x # xs \<Rightarrow> if x = c then [(Suc i, xs, caps)] else [])"
| "matcher AnyChar (i, s, caps) =
     (case s of [] \<Rightarrow> [] | x # xs \<Rightarrow> if x = LF \<or> x = CR then [] else [(Suc i, xs, caps)])"
| "matcher (Cls cs) (i, s, caps) =
     (case s of [] \<Rightarrow> [] | x # xs \<Rightarrow> if x \<in> set cs then [(Suc i, xs, caps)] else [])"
| "matcher Bol (i, s, caps) = (if i = 0 then [(i, s, caps)] else [])"
| "matcher Eol (i, s, caps) = (if s = [] then [(i, s, caps)] else [])"
| "matcher (Group n r) (i, s, caps) =
     map (\<lambda>(j, s', caps'). (j, s', caps'(n \<mapsto> take (j - i) s))) (matcher r (i, s, caps))"
| "matcher (Seq a b) st = concat (map (matcher b) (matcher a st))"
| "matcher (Alt a b) st = matcher a st @ matcher b st"
| "matcher (Opt r) (i, s, caps) =
     filter (\<lambda>(j, s', caps'). length s' < length s)
            (matcher r (i, s, clear (groups_of r) caps))
     @ [(i, s, caps)]"
| "matcher (Star r) (i, s, caps) =
     concat (map (\<lambda>(j, s', caps').
                    if length s' < length s then matcher (Star r) (j, s', caps') else [])
                 (matcher r (i, s, clear (groups_of r) caps)))
     @ [(i, s, caps)]"
| "matcher (Plus r) (i, s, caps) =
     concat (map (matcher (Star r)) (matcher r (i, s, clear (groups_of r) caps)))"
  by pat_completeness auto
termination
  by (relation "inv_image (less_than <*lex*> less_than) (\<lambda>(r, i, s, c). (rsize r, length s))")
     auto

declare matcher.simps(11) [simp del]

subsection \<open>Pattern compilation: \<^verbatim>\<open>new RegExp(source, flags)\<close>\<close>

text \<open>
  SyntaxCharacter of the ECMAScript pattern grammar; it is also, character for
  character, the class \<^verbatim>\<open>[\\^$*+?.()|[\]{}]\<close> of the script's \<^verbatim>\<open>escape\<close>.
\<close>

definition syntax_chars :: "char list" where
  "syntax_chars = BSL # ''^$*+?.()|[]{}''"

text \<open>
  The compiler reads the pattern left to right with a stack of open groups. Each frame
  holds the alternatives finished so far and the terms of the current alternative, both
  in reverse. It returns \<open>None\<close> where ECMAScript raises a SyntaxError and also on the
  constructs left out of this model (classes written with brackets, braces, lazy
  quantifiers, non-capturing groups, escapes other than the identity escapes of syntax
  characters and \<^verbatim>\<open>\n \r \t \v \f\<close>).
\<close>

record frame =
  alts :: "regex list"
  cur :: "regex list"
  gidx :: nat

type_synonym pstate = "frame list \<times> nat"

definition mk_seq :: "regex list \<Rightarrow> regex" where
  "mk_seq ts = foldr Seq ts Empty"

fun mk_alt :: "regex list \<Rightarrow> regex" where
  "mk_alt [] = Empty"
| "mk_alt [a] = a"
| "mk_alt (a # as) = Alt a (mk_alt as)"

definition close_frame :: "frame \<Rightarrow> regex" where
  "close_frame f = mk_alt (rev (mk_seq (rev (cur f)) # alts f))"

definition push_term :: "regex \<Rightarrow> pstate \<Rightarrow> pstate option" where
  "push_term t ps = (case ps of
      ([], n) \<Rightarrow> None
    | (f # fs, n) \<Rightarrow> Some (f\<lparr>cur := t # cur f\<rparr> # fs, n))"

fun quantifiable :: "regex \<Rightarrow> bool" where
  "quantifiable (Chr c) = True"
| "quantifiable AnyChar = True"
| "quantifiable (Cls cs) = True"
| "quantifiable (Group n r) = True"
| "quantifiable _ = False"

definition quantify :: "(regex \<Rightarrow> regex) \<Rightarrow> pstate \<Rightarrow> pstate option" where
  "quantify q ps = (case ps of
      ([], n) \<Rightarrow> None
    | (f # fs, n) \<Rightarrow> (case cur f of
          [] \<Rightarrow> None
        | t # ts \<Rightarrow> if quantifiable t then Some (f\<lparr>cur := q t # ts\<rparr> # fs, n) else None))"

definition escape_atom :: "char \<Rightarrow> regex option" where
  "escape_atom e =
     (if e \<in> set syntax_chars \<or> e = CHR ''/'' then Some (Chr e)
      else if e = CHR ''n'' then Some (Chr LF)
      else if e = CHR ''r'' then Some (Chr CR)
      else if e = CHR ''t'' then Some (Chr (CHR 0x09))
      else if e = CHR ''v'' then Some (Chr (CHR 0x0B))
      else if e = CHR ''f'' then Some (Chr (CHR 0x0C))
      else None)"

definition pattern_step :: "char \<Rightarrow> pstate \<Rightarrow> pstate option" where
  "pattern_step c ps =
     (if c = CHR ''('' then
        (case ps of (fs, n) \<Rightarrow> Some (\<lparr>alts = [], cur = [], gidx = Suc n\<rparr> # fs, Suc n))
      else if c = CHR '')'' then
        (case ps of
           (f # g # fs, n) \<Rightarrow> Some (g\<lparr>cur := Group (gidx f) (close_frame f) # cur g\<rparr> # fs, n)
         | _ \<Rightarrow> None)
      else if c = CHR ''|'' then
        (case ps of
           (f # fs, n) \<Rightarrow> Some (f\<lparr>alts := mk_seq (rev (cur f)) # alts f, cur := []\<rparr> # fs, n)
         | _ \<Rightarrow> None)
      else if c = CHR ''*'' then quantify Star ps
      else if c = CHR ''+'' then quantify Plus ps
      else if c = CHR ''?'' then quantify Opt ps
      else if c = CHR ''^'' then push_term Bol ps
      else if c = CHR ''$'' then push_term Eol ps
      else if c = CHR ''.'' then push_term AnyChar ps
      else if c \<in> set ''[]{}'' then None
      else push_term (Chr c) ps)"

fun compile_loop :: "pstate \<Rightarrow> string \<Rightarrow> (regex \<times> nat) option" where
  "compile_loop ps [] = (case ps of ([f], n) \<Rightarrow> Some (close_frame f, n) | _ \<Rightarrow> None)"
| "compile_loop ps (c # cs) =
     (if c = BSL then
        (case cs of
           [] \<Rightarrow> None
         | e # cs' \<Rightarrow> (case escape_atom e of
               None \<Rightarrow> None
             | Some a \<Rightarrow> (case push_term a ps of
                   None \<Rightarrow> None
                 | Some ps' \<Rightarrow> compile_loop ps' cs')))
      else (case pattern_step c ps of None \<Rightarrow> None | Some ps' \<Rightarrow> compile_loop ps' cs))"

text \<open>
  A RegExp object: the compiled pattern, the number of its capturing groups and the
  global flag. The script passes no flags or \<^verbatim>\<open>"g"\<close>.
\<close>

record RegExp =
  ast :: regex
  ncaps :: nat
  global :: bool

definition RegExp_new :: "string \<Rightarrow> string \<Rightarrow> RegExp option" where
  "RegExp_new src flags =
     (if flags \<noteq> [] \<and> flags \<noteq> ''g'' then None
      else case compile_loop ([\<lparr>alts = [], cur = [], gidx = 0\<rparr>], 0) src of
             None \<Rightarrow> None
           | Some (r, n) \<Rightarrow> Some \<lparr>ast = r, ncaps = n, global = (flags = ''g'')\<rparr>)"

subsection \<open>Searching, testing and replacing\<close>

text \<open>
  The matcher only moves forward: every state it returns is reached by consuming a
  prefix of the remaining input. The search loop of a global replacement terminates
  for this reason.
\<close>

lemma in_matcher_Star:
  "st' \<in> set (matcher (Star r) (i, s, caps)) \<longleftrightarrow>
     st' = (i, s, caps) \<or>
     (\<exists>k t d. (k, t, d) \<in> set (matcher r (i, s, clear (groups_of r) caps)) \<and> length t < length s
        \<and> st' \<in> set (matcher (Star r) (k, t, d)))"
  by (subst matcher.simps(11)) (auto split: if_splits)

definition reaches :: "mstate \<Rightarrow> mstate \<Rightarrow> bool" where
  "reaches st st' = (\<exists>u. fst (snd st) = u @ fst (snd st') \<and> fst st' = fst st + length u)"

lemma reaches_refl: "reaches st st"
  by (simp add: reaches_def)

lemma reaches_trans: "reaches a b \<Longrightarrow> reaches b c \<Longrightarrow> reaches a c"
  unfolding reaches_def by (metis append.assoc length_append add.assoc)

lemma reaches_caps: "reaches (i, s, c) (j, t, d) \<Longrightarrow> reaches (i, s, c') (j, t, d')"
  by (simp add: reaches_def)

lemma matcher_reaches: "st' \<in> set (matcher r st) \<Longrightarrow> reaches st st'"
proof (induction r st arbitrary: st' rule: matcher.induct)
  case (8 a b st)
  then obtain mid where "mid \<in> set (matcher a st)" "st' \<in> set (matcher b mid)" by auto
  with 8 show ?case by (blast intro: reaches_trans)
next
  case (7 n r i s caps)
  then obtain j t d where "(j, t, d) \<in> set (matcher r (i, s, caps))"
      "st' = (j, t, d(n \<mapsto> take (j - i) s))"
    by auto
  with 7(1)[of "(j, t, d)"] show ?case by (simp add: reaches_def)
next
  case (10 r i s caps)
  from 10(2) consider "st' = (i, s, caps)"
    | "st' \<in> set (matcher r (i, s, clear (groups_of r) caps))"
    by auto
  then show ?case
  proof cases
    case 1 then show ?thesis by (simp add: reaches_refl)
  next
    case 2
    from 10(1)[OF 2] show ?thesis by (simp add: reaches_def)
  qed
next
  case (11 r i s caps)
  from 11(3) consider "st' = (i, s, caps)"
    | k t d where "(k, t, d) \<in> set (matcher r (i, s, clear (groups_of r) caps))"
        "length t < length s" "st' \<in> set (matcher (Star r) (k, t, d))"
    using in_matcher_Star[of st' r i s caps] by blast
  then show ?case
  proof cases
    case 1 then show ?thesis by (simp add: reaches_refl)
  next
    case 2
    from 11(1)[OF 2(1)] have "reaches (i, s, caps) (k, t, d)" by (rule reaches_caps)
    moreover from 11(2)[OF 2(1) refl refl 2(2) 2(3)] have "reaches (k, t, d) st'" .
    ultimately show ?thesis by (rule reaches_trans)
  qed
next
  case (12 r i s caps)
  then obtain mid where mid: "mid \<in> set (matcher r (i, s, clear (groups_of r) caps))"
      and fin: "st' \<in> set (matcher (Star r) mid)"
    by auto
  from 12(1)[OF mid] have "reaches (i, s, caps) mid" by (simp add: reaches_def)
  moreover from 12(2)[OF mid fin] have "reaches mid st'" .
  ultimately show ?case by (rule reaches_trans)
qed (auto simp: reaches_def split: list.splits if_splits)

lemma matcher_advances:
  "(j, s', c') \<in> set (matcher r (i, s, c)) \<Longrightarrow> \<exists>u. s = u @ s' \<and> j = i + length u"
  using matcher_reaches[of "(j, s', c')" r "(i, s, c)"] by (simp add: reaches_def)

text \<open>
  RegExpBuiltinExec from index \<open>i\<close>, where \<open>s\<close> is the input from \<open>i\<close> on: the first index
  at or after \<open>i\<close> (the end of the input included) where the pattern matches, the input
  from that index on, and the state the match ends in.
\<close>

fun first_match :: "regex \<Rightarrow> nat \<Rightarrow> string \<Rightarrow> (nat \<times> string \<times> mstate) option" where
  "first_match r i [] =
     (case matcher r (i, [], Map.empty) of [] \<Rightarrow> None | st # _ \<Rightarrow> Some (i, [], st))"
| "first_match r i (x # xs) =
     (case matcher r (i, x # xs, Map.empty) of
        [] \<Rightarrow> first_match r (Suc i) xs
      | st # _ \<Rightarrow> Some (i, x # xs, st))"

definition RegExp_test :: "RegExp \<Rightarrow> string \<Rightarrow> bool" where
  "RegExp_test re s = (first_match (ast re) 0 s \<noteq> None)"

text \<open>
  GetSubstitution: the expansion of a replacement template. \<^verbatim>\<open>$$\<close> is a dollar sign,
  \<^verbatim>\<open>$&\<close> the matched text, \<^verbatim>\<open>$`\<close> and \<^verbatim>\<open>$'\<close> the text before and after the match,
  \<^verbatim>\<open>$n\<close> and \<^verbatim>\<open>$nn\<close> a capture (the empty string when the group did not take part);
  a two-digit index beyond the number of groups is read as a one-digit index followed
  by a digit; any other dollar sign stands for itself.
\<close>

definition is_digit :: "char \<Rightarrow> bool" where
  "is_digit c = (c \<in> set ''0123456789'')"

definition digit_val :: "char \<Rightarrow> nat" where
  "digit_val c = of_char c - 48"

definition capture_text :: "captures \<Rightarrow> nat \<Rightarrow> string" where
  "capture_text caps k = (case caps k of None \<Rightarrow> [] | Some t \<Rightarrow> t)"

fun GetSubstitution ::
  "string \<Rightarrow> string \<Rightarrow> string \<Rightarrow> captures \<Rightarrow> nat \<Rightarrow> string \<Rightarrow> string" where
  "GetSubstitution matched bef aft caps n [] = []"
| "GetSubstitution matched bef aft caps n [c] = [c]"
| "GetSubstitution matched bef aft caps n (c # d # t) =
     (if c \<noteq> CHR ''$'' then c # GetSubstitution matched bef aft caps n (d # t)
      else if d = CHR ''$'' then CHR ''$'' # GetSubstitution matched bef aft caps n t
      else if d = CHR ''&'' then matched @ GetSubstitution matched bef aft caps n t
      else if d = BQ then bef @ GetSubstitution matched bef aft caps n t
      else if d = CHR 0x27 then aft @ GetSubstitution matched bef aft caps n t
      else if is_digit d then
        (case t of
           d2 # t2 \<Rightarrow>
             if is_digit d2 \<and> 10 * digit_val d + digit_val d2 \<le> n then
               (if 1 \<le> 10 * digit_val d + digit_val d2
                then capture_text caps (10 * digit_val d + digit_val d2)
                       @ GetSubstitution matched bef aft caps n t2
                else c # d # d2 # GetSubstitution matched bef aft caps n t2)
             else if 1 \<le> digit_val d \<and> digit_val d \<le> n
               then capture_text caps (digit_val d) @ GetSubstitution matched bef aft caps n t
               else c # d # GetSubstitution matched bef aft caps n t
         | [] \<Rightarrow>
             if 1 \<le> digit_val d \<and> digit_val d \<le> n
               then capture_text caps (digit_val d)
               else [c, d])
      else c # GetSubstitution matched bef aft caps n (d # t))"

text \<open>Replacement with a regular expression that is not global: the first match only.\<close>

definition replace_first :: "RegExp \<Rightarrow> string \<Rightarrow> string \<Rightarrow> string" where
  "replace_first re repl s =
     (case first_match (ast re) 0 s of
        None \<Rightarrow> s
      | Some (p, sp, e, s', caps) \<Rightarrow>
          take p s @ GetSubstitution (take (e - p) sp) (take p s) s' caps (ncaps re) repl @ s')"

lemma first_match_shorter:
  "first_match r i s = Some (p, sp, e, s', caps) \<Longrightarrow>
     length sp \<le> length s \<and> length s' \<le> length sp \<and>
     (take (e - p) sp \<noteq> [] \<longrightarrow> length s' < length sp)"
proof (induction r i s rule: first_match.induct)
  case (1 r i)
  then obtain rest where "matcher r (i, [], Map.empty) = (e, s', caps) # rest" "sp = []"
    by (auto split: list.splits)
  then have "(e, s', caps) \<in> set (matcher r (i, [], Map.empty))" by simp
  from matcher_advances[OF this] show ?case using \<open>sp = []\<close> by auto
next
  case (2 r i x xs)
  show ?case
  proof (cases "matcher r (i, x # xs, Map.empty)")
    case Nil
    with 2 show ?thesis by auto
  next
    case (Cons st rest)
    with 2(2) have eq: "p = i" "sp = x # xs" "st = (e, s', caps)" by auto
    with Cons have "(e, s', caps) \<in> set (matcher r (i, x # xs, Map.empty))" by simp
    from matcher_advances[OF this] obtain u where "x # xs = u @ s'" "e = i + length u" by blast
    then show ?thesis using eq by (cases u) auto
  qed
qed

text \<open>
  Replacement with a global regular expression: every match from left to right, the
  search resuming where the last match ended, one code unit further after an empty
  match. \<open>whole\<close> is the entire input (for \<^verbatim>\<open>$`\<close>), \<open>s\<close> the input from index \<open>i\<close> on.
\<close>

function replace_loop :: "RegExp \<Rightarrow> string \<Rightarrow> string \<Rightarrow> nat \<Rightarrow> string \<Rightarrow> string" where
  "replace_loop re repl whole i s =
     (case first_match (ast re) i s of
        None \<Rightarrow> s
      | Some (p, sp, e, s', caps) \<Rightarrow>
          take (p - i) s
          @ GetSubstitution (take (e - p) sp) (take p whole) s' caps (ncaps re) repl
          @ (if take (e - p) sp = [] then
               (case s' of [] \<Rightarrow> [] | x # xs \<Rightarrow> x # replace_loop re repl whole (Suc e) xs)
             else replace_loop re repl whole e s'))"
  by pat_completeness auto
termination
proof (relation "measure (\<lambda>(re, repl, whole, i, s). length s)", goal_cases)
  case 1 show ?case by simp
next
  case (2 re repl whole i s x2 p y sp z e w s' caps x xs)
  then have "first_match (ast re) i s = Some (p, sp, e, x # xs, caps)" by simp
  from first_match_shorter[OF this] show ?case by simp
next
  case (3 re repl whole i s x2 p y sp z e w s' caps)
  then have "first_match (ast re) i s = Some (p, sp, e, s', caps)" by simp
  from first_match_shorter[OF this] 3 show ?case by simp
qed

declare replace_loop.simps [simp del]

definition replace_all :: "RegExp \<Rightarrow> string \<Rightarrow> string \<Rightarrow> string" where
  "replace_all re repl s = replace_loop re repl s 0 s"

text \<open>\<^verbatim>\<open>String.prototype.replace\<close> with a regular expression as its pattern.\<close>

definition String_replace :: "string \<Rightarrow> RegExp \<Rightarrow> string \<Rightarrow> string" where
  "String_replace s re repl = (if global re then replace_all re repl s else replace_first re repl s)"

subsection \<open>The converter: \<^verbatim>\<open>escape\<close> and the rewriting in \<^verbatim>\<open>literateToMdFile\<close>\<close>

text \<open>
  \<^verbatim>\<open>str.replace(/[\\^$*+?.()|[\]{}]/g, "\\$&")\<close>: the regular expression literal is
  given by its syntax tree, a class with the syntax characters as members.
\<close>

definition escape :: "string \<Rightarrow> string" where
  "escape str =
     String_replace str \<lparr>ast = Cls syntax_chars, ncaps = 0, global = True\<rparr> [BSL, CHR ''$'', CHR ''&'']"

text \<open>
  An entry of the configuration table \<^verbatim>\<open>literate-to-md.json\<close>: the delimiters that open
  and close a prose block, and the optional language tag.
\<close>

record langConfig =
  open_delim :: string
  close_delim :: string
  lang :: "string option"

datatype error =
    SyntaxError
  | TypeError
  | ENOENT "string list"
  | ENOTDIR "string list"
  | EISDIR "string list"
  | EEXIST "string list"

text \<open>
  \<^verbatim>\<open>langConfig.lang || ext.substr(1)\<close>: the right operand is taken when the left one is
  falsy, that is absent or the empty string.
\<close>

definition js_or :: "string option \<Rightarrow> string \<Rightarrow> string" where
  "js_or a b = (case a of None \<Rightarrow> b | Some v \<Rightarrow> if v = [] then b else v)"

text \<open>The text \<^verbatim>\<open>(\r?\n)\<close> of the pattern templates, and the fence marker.\<close>

definition nl_src :: string where
  "nl_src = ''('' @ [BSL] @ ''r?'' @ [BSL] @ ''n)''"

definition fence :: string where
  "fence = [BQ, BQ, BQ]"

text \<open>
  The sources of the four patterns, as the template literals build them from the
  escaped delimiter: \<^verbatim>\<open>^(\r?\n)*${open}(\r?\n)+\<close>, \<^verbatim>\<open>(\r?\n)+${close}(\r?\n)*$\<close>, and
  \<^verbatim>\<open>(\r?\n)+${close}(\r?\n)+\<close> and \<^verbatim>\<open>(\r?\n)+${open}(\r?\n)+\<close> for the two global ones.
\<close>

definition start_src :: "string \<Rightarrow> string" where
  "start_src opn = ''^'' @ nl_src @ ''*'' @ opn @ nl_src @ ''+''"

definition end_src :: "string \<Rightarrow> string" where
  "end_src cls = nl_src @ ''+'' @ cls @ nl_src @ ''*$''"

definition interior_src :: "string \<Rightarrow> string" where
  "interior_src d = nl_src @ ''+'' @ d @ nl_src @ ''+''"

text \<open>
  The rewriting of \<^verbatim>\<open>literateToMdFile\<close>, from the computation of \<^verbatim>\<open>lang\<close> to the value
  passed to \<^verbatim>\<open>writeFile\<close>. \<open>eol\<close> is \<^verbatim>\<open>os.EOL\<close> and \<open>ext\<close> is \<^verbatim>\<open>ext.substr(1)\<close>.
\<close>

definition convert :: "string \<Rightarrow> langConfig \<Rightarrow> string \<Rightarrow> string \<Rightarrow> error + string" where
  "convert eol langConfig ext contents =
     (let lang = js_or (lang langConfig) ext;
          opn = escape (open_delim langConfig);
          cls = escape (close_delim langConfig)
      in case RegExp_new (start_src opn) [] of
           None \<Rightarrow> Inl SyntaxError
         | Some startRegex \<Rightarrow>
      let contents1 = (if RegExp_test startRegex contents
                       then String_replace contents startRegex []
                       else fence @ lang @ eol @ contents)
      in case RegExp_new (end_src cls) [] of
           None \<Rightarrow> Inl SyntaxError
         | Some endRegex \<Rightarrow>
      let contents2 = (if RegExp_test endRegex contents1
                       then String_replace contents1 endRegex []
                       else contents1 @ eol @ fence)
      in case RegExp_new (interior_src cls) ''g'' of
           None \<Rightarrow> Inl SyntaxError
         | Some closeRegex \<Rightarrow>
        (case RegExp_new (interior_src opn) ''g'' of
           None \<Rightarrow> Inl SyntaxError
         | Some openRegex \<Rightarrow>
             Inr (String_replace
                   (String_replace contents2 closeRegex (eol @ eol @ fence @ lang @ eol))
                   openRegex (eol @ fence @ eol @ eol))))"

subsection \<open>Paths\<close>

text \<open>
  A path is the list of its components, relative to the working directory;
  \<^verbatim>\<open>path.join(p, i)\<close> with a directory entry \<open>i\<close> appends a component. \<^verbatim>\<open>path.parse\<close>
  splits the last component at its last dot; there is no extension when there is no
  dot, when the only dot is the first character, or when the component is \<^verbatim>\<open>..\<close>.
\<close>

type_synonym path = "string list"

definition last_dot :: "string \<Rightarrow> nat option" where
  "last_dot b =
     (if CHR ''.'' \<in> set b
      then Some (length b - Suc (length (takeWhile (\<lambda>c. c \<noteq> CHR ''.'') (rev b))))
      else None)"

definition parse_base :: "string \<Rightarrow> string \<times> string" where
  "parse_base b =
     (case last_dot b of
        None \<Rightarrow> (b, [])
      | Some k \<Rightarrow> if k = 0 \<or> b = ''..'' then (b, []) else (take k b, drop k b))"

definition path_parse :: "path \<Rightarrow> path \<times> string \<times> string" where
  "path_parse p = (if p = [] then ([], [], []) else (butlast p, parse_base (last p)))"

definition path_format :: "path \<Rightarrow> string \<Rightarrow> string \<Rightarrow> path" where
  "path_format dir name ext = dir @ [name @ ext]"

definition path_join :: "path \<Rightarrow> string \<Rightarrow> path" where
  "path_join p i = p @ [i]"

text \<open>The path \<^verbatim>\<open>literateToMdFile\<close> writes to: the extension replaced by \<^verbatim>\<open>.md\<close>.\<close>

definition md_path :: "path \<Rightarrow> path" where
  "md_path p = (case path_parse p of (dir, name, ext) \<Rightarrow> path_format dir name ''.md'')"

subsection \<open>The file system\<close>

text \<open>
  The state the script acts on: the file system, as a table from paths to regular files
  (with their text) and directories, and the lines printed by \<^verbatim>\<open>console.log\<close>, each
  kept as the pair of paths it shows. Permissions, links and devices are left out, so
  the failures of the model are those of a missing path and of a file where a directory
  is needed or a directory where a file is.
\<close>

datatype entry = File string | Dir

record world =
  entries :: "(path \<times> entry) list"
  stdout :: "(path \<times> path) list"

definition lookup :: "world \<Rightarrow> path \<Rightarrow> entry option" where
  "lookup w p = map_of (entries w) p"

definition put :: "path \<Rightarrow> entry \<Rightarrow> world \<Rightarrow> world" where
  "put p e w = w\<lparr>entries := AList.update p e (entries w)\<rparr>"

definition readdir :: "world \<Rightarrow> path \<Rightarrow> string list" where
  "readdir w p =
     remdups (map (\<lambda>(q, e). last q) (filter (\<lambda>(q, e). q \<noteq> [] \<and> butlast q = p) (entries w)))"

text \<open>
  \<^verbatim>\<open>fs.mkdir(dir, { recursive: true })\<close> creates the missing directories along \<open>dir\<close>
  and accepts the ones that exist; it fails on a regular file in the way, with the path
  it was given in the error, and on the empty path, which is what \<^verbatim>\<open>path.parse\<close>
  returns as the directory of a path of one component.
\<close>

fun mkdirs :: "world \<Rightarrow> path \<Rightarrow> path \<Rightarrow> error + world" where
  "mkdirs w pre [] = Inr w"
| "mkdirs w pre (n # ns) =
     (case lookup w (pre @ [n]) of
        Some (File c) \<Rightarrow> Inl (if ns = [] then EEXIST (pre @ [n]) else ENOTDIR (pre @ n # ns))
      | Some Dir \<Rightarrow> mkdirs w (pre @ [n]) ns
      | None \<Rightarrow> mkdirs (put (pre @ [n]) Dir w) (pre @ [n]) ns)"

definition mkdir :: "world \<Rightarrow> path \<Rightarrow> error + world" where
  "mkdir w dir = (if dir = [] then Inl (ENOENT []) else mkdirs w [] dir)"

definition readFile :: "world \<Rightarrow> path \<Rightarrow> error + string" where
  "readFile w p =
     (case lookup w p of
        Some (File c) \<Rightarrow> Inr c
      | Some Dir \<Rightarrow> Inl (EISDIR p)
      | None \<Rightarrow> Inl (ENOENT p))"

definition writeFile :: "world \<Rightarrow> path \<Rightarrow> string \<Rightarrow> error + world" where
  "writeFile w p c =
     (case lookup w p of
        Some Dir \<Rightarrow> Inl (EISDIR p)
      | _ \<Rightarrow>
        if butlast p = [] then Inr (put p (File c) w)
        else (case lookup w (butlast p) of
                Some Dir \<Rightarrow> Inr (put p (File c) w)
              | Some (File d) \<Rightarrow> Inl (ENOTDIR p)
              | None \<Rightarrow> Inl (ENOENT p)))"

subsection \<open>The configuration table\<close>

text \<open>
  \<^verbatim>\<open>literate-to-md.json\<close> is not part of the sources; the table is a parameter, a map from
  extensions to entries. The script reads it with \<^verbatim>\<open>config[ext.substr(1)]\<close>, a property
  access on the object that \<^verbatim>\<open>require\<close> returns for a JSON file: a key the table does not
  have is looked up in \<^verbatim>\<open>Object.prototype\<close>, whose members are functions or objects, all
  truthy and none with an \<^verbatim>\<open>open\<close> or a \<^verbatim>\<open>close\<close> property.
\<close>

datatype property = Own langConfig | Inherited | Undefined

definition object_prototype_keys :: "string list" where
  "object_prototype_keys =
     [''constructor'', ''toString'', ''toLocaleString'', ''valueOf'', ''hasOwnProperty'',
      ''isPrototypeOf'', ''propertyIsEnumerable'', ''__defineGetter__'', ''__defineSetter__'',
      ''__lookupGetter__'', ''__lookupSetter__'', ''__proto__'']"

definition config_get :: "(string \<rightharpoonup> langConfig) \<Rightarrow> string \<Rightarrow> property" where
  "config_get config key =
     (case config key of
        Some lc \<Rightarrow> Own lc
      | None \<Rightarrow> if key \<in> set object_prototype_keys then Inherited else Undefined)"

text \<open>What a run is given besides the paths: the table and \<^verbatim>\<open>os.EOL\<close>.\<close>

record env =
  config :: "string \<rightharpoonup> langConfig"
  eol :: string

subsection \<open>The walker: \<^verbatim>\<open>literateToMdFile\<close> and \<^verbatim>\<open>literateToMd\<close>\<close>

text \<open>
  Every \<^verbatim>\<open>await\<close> that rejects ends the function with that error. With an inherited
  property as \<^verbatim>\<open>langConfig\<close>, \<^verbatim>\<open>escape(langConfig.open)\<close> calls \<^verbatim>\<open>replace\<close> on
  \<^verbatim>\<open>undefined\<close>, a TypeError, after the directory was made and the file read.
\<close>

definition literateToMdFile :: "env \<Rightarrow> world \<Rightarrow> path \<Rightarrow> path \<Rightarrow> world \<times> (error + unit)" where
  "literateToMdFile env w input output =
     (case path_parse output of (dir, name, ext) \<Rightarrow>
        (case config_get (config env) (drop 1 ext) of
           Undefined \<Rightarrow> (w, Inr ())
         | langConfig \<Rightarrow>
           (case mkdir w dir of
              Inl e \<Rightarrow> (w, Inl e)
            | Inr w1 \<Rightarrow>
              (case readFile w1 input of
                 Inl e \<Rightarrow> (w1, Inl e)
               | Inr contents \<Rightarrow>
                 (case (case langConfig of
                          Own lc \<Rightarrow> convert (eol env) lc (drop 1 ext) contents
                        | _ \<Rightarrow> Inl TypeError) of
                    Inl e \<Rightarrow> (w1, Inl e)
                  | Inr md \<Rightarrow>
                    (case writeFile w1 (path_format dir name ''.md'') md of
                       Inl e \<Rightarrow> (w1, Inl e)
                     | Inr w2 \<Rightarrow>
                         (w2\<lparr>stdout := stdout w2 @ [(input, path_format dir name ''.md'')]\<rparr>,
                          Inr ())))))))"

text \<open>
  The walk is concurrent. \<^verbatim>\<open>literateToMd\<close> starts every child of a directory at once
  (\<^verbatim>\<open>map\<close> calls the function on each entry before anything is awaited) and awaits
  \<^verbatim>\<open>Promise.all\<close> of their promises; each call runs up to its next \<^verbatim>\<open>await\<close> of a file-system
  operation, and the operations of different calls complete in an order the script does
  not choose. A call that has not settled is therefore a task waiting for one
  operation, and a run is a sequence of moves, each completing the pending operation of
  one task and running that task up to its next \<^verbatim>\<open>await\<close>. Each file-system operation is
  taken as one indivisible change of the file system.
\<close>

datatype task =
    Call path path
  | Listing path path
  | Making path path
  | Reading path path
  | Writing path path string
  | Waiting "task list"
  | Rejected error "task list"
  | Settled "error + unit"

text \<open>
  \<open>Call input output\<close> is \<^verbatim>\<open>literateToMd(input, output)\<close> waiting for \<^verbatim>\<open>fs.stat\<close>, and
  \<open>Listing\<close> the same call waiting for \<^verbatim>\<open>fs.readdir\<close>. \<open>Making\<close>, \<open>Reading\<close> and \<open>Writing\<close> are
  \<^verbatim>\<open>literateToMdFile(input, output)\<close> waiting for \<^verbatim>\<open>fs.mkdir\<close>, \<^verbatim>\<open>fs.readFile\<close> and
  \<^verbatim>\<open>fs.writeFile\<close> (of the text it has computed). \<open>Waiting\<close> is a call waiting for
  \<^verbatim>\<open>Promise.all\<close> of its children. \<open>Settled\<close> is a call that has returned or thrown.
  \<open>Rejected e ts\<close> is a call whose \<^verbatim>\<open>Promise.all\<close> was rejected with \<open>e\<close>: the call has thrown
  \<open>e\<close>, and its children \<open>ts\<close>, which nothing cancels, go on.
\<close>

fun outcome :: "task \<Rightarrow> (error + unit) option" where
  "outcome (Settled r) = Some r"
| "outcome (Rejected e ts) = Some (Inl e)"
| "outcome t = None"

text \<open>
  The start of \<^verbatim>\<open>literateToMdFile\<close>, up to its first \<^verbatim>\<open>await\<close>: it returns at once for an
  extension without an entry.
\<close>

definition enter :: "env \<Rightarrow> path \<Rightarrow> path \<Rightarrow> task" where
  "enter env input output =
     (case path_parse output of (dir, name, ext) \<Rightarrow>
        (case config_get (config env) (drop 1 ext) of
           Undefined \<Rightarrow> Settled (Inr ())
         | langConfig \<Rightarrow> Making input output))"

text \<open>
  \<^verbatim>\<open>Promise.all\<close> of the promises of the children: fulfilled at once for no child, pending
  otherwise.
\<close>

definition spawn :: "task list \<Rightarrow> task" where
  "spawn ts = (if ts = [] then Settled (Inr ()) else Waiting ts)"

text \<open>
  The move of one task that waits for a file-system operation: the operation completes
  on the file system as it is at that moment, and the call runs on to its next \<^verbatim>\<open>await\<close>
  or to its end.
\<close>

fun resume :: "env \<Rightarrow> world \<Rightarrow> task \<Rightarrow> world \<times> task" where
  "resume env w (Call input output) =
     (case lookup w input of
        None \<Rightarrow> (w, Settled (Inl (ENOENT input)))
      | Some Dir \<Rightarrow> (w, Listing input output)
      | Some (File c) \<Rightarrow> (w, enter env input output))"
| "resume env w (Listing input output) =
     (case lookup w input of
        None \<Rightarrow> (w, Settled (Inl (ENOENT input)))
      | Some (File c) \<Rightarrow> (w, Settled (Inl (ENOTDIR input)))
      | Some Dir \<Rightarrow>
          (w, spawn (map (\<lambda>i. Call (path_join input i) (path_join output i)) (readdir w input))))"
| "resume env w (Making input output) =
     (case path_parse output of (dir, name, ext) \<Rightarrow>
        (case mkdir w dir of
           Inl e \<Rightarrow> (w, Settled (Inl e))
         | Inr w1 \<Rightarrow> (w1, Reading input output)))"
| "resume env w (Reading input output) =
     (case path_parse output of (dir, name, ext) \<Rightarrow>
        (case readFile w input of
           Inl e \<Rightarrow> (w, Settled (Inl e))
         | Inr contents \<Rightarrow>
           (case (case config_get (config env) (drop 1 ext) of
                    Own lc \<Rightarrow> convert (eol env) lc (drop 1 ext) contents
                  | _ \<Rightarrow> Inl TypeError) of
              Inl e \<Rightarrow> (w, Settled (Inl e))
            | Inr md \<Rightarrow> (w, Writing input output md))))"
| "resume env w (Writing input output md) =
     (case path_parse output of (dir, name, ext) \<Rightarrow>
        (case writeFile w (path_format dir name ''.md'') md of
           Inl e \<Rightarrow> (w, Settled (Inl e))
         | Inr w2 \<Rightarrow>
             (w2\<lparr>stdout := stdout w2 @ [(input, path_format dir name ''.md'')]\<rparr>, Settled (Inr ()))))"
| "resume env w t = (w, t)"

text \<open>
  What the promise of \<^verbatim>\<open>Promise.all\<close> becomes when the child \<open>i\<close> has moved: rejected
  with the error of that child if it has just been rejected, whatever the state of the
  others; fulfilled if every child is fulfilled; pending otherwise. The awaiting call
  throws or returns with it.
\<close>

definition Promise_all :: "task list \<Rightarrow> nat \<Rightarrow> task" where
  "Promise_all ts i =
     (case outcome (ts ! i) of
        Some (Inl e) \<Rightarrow> Rejected e ts
      | _ \<Rightarrow> if list_all (\<lambda>t. outcome t = Some (Inr ())) ts then Settled (Inr ()) else Waiting ts)"

text \<open>
  A move is named by the place of its task in the tree: the numbers of the children to
  descend into. A task that has been rejected keeps its children, and they still move;
  what they return changes nothing above them.
\<close>

fun advance :: "env \<Rightarrow> nat list \<Rightarrow> world \<Rightarrow> task \<Rightarrow> (world \<times> task) option" where
  "advance env [] w (Waiting ts) = None"
| "advance env [] w (Rejected e ts) = None"
| "advance env [] w (Settled r) = None"
| "advance env [] w t = Some (resume env w t)"
| "advance env (i # a) w (Waiting ts) =
     (if i < length ts
      then map_option (\<lambda>(w', t'). (w', Promise_all (ts[i := t']) i)) (advance env a w (ts ! i))
      else None)"
| "advance env (i # a) w (Rejected e ts) =
     (if i < length ts
      then map_option (\<lambda>(w', t'). (w', Rejected e (ts[i := t']))) (advance env a w (ts ! i))
      else None)"
| "advance env (i # a) w t = None"

text \<open>
  A run of the script under a schedule, the list of its moves in the order in which
  they happen: \<open>None\<close> when the schedule names a task that cannot move.
\<close>

fun exec :: "env \<Rightarrow> nat list list \<Rightarrow> world \<times> task \<Rightarrow> (world \<times> task) option" where
  "exec env [] c = Some c"
| "exec env (a # sched) (w, t) =
     (case advance env a w t of None \<Rightarrow> None | Some c \<Rightarrow> exec env sched c)"

definition literateToMd :: "env \<Rightarrow> nat list list \<Rightarrow> world \<Rightarrow> path \<Rightarrow> path \<Rightarrow> (world \<times> task) option" where
  "literateToMd env sched w input output = exec env sched (w, Call input output)"

text \<open>The task at a place of the tree, and the number of tasks that can still move.\<close>

fun task_at :: "nat list \<Rightarrow> task \<Rightarrow> task option" where
  "task_at [] t = Some t"
| "task_at (i # a) (Waiting ts) = (if i < length ts then task_at a (ts ! i) else None)"
| "task_at (i # a) (Rejected e ts) = (if i < length ts then task_at a (ts ! i) else None)"
| "task_at (i # a) t = None"

fun pending :: "task \<Rightarrow> nat" where
  "pending (Waiting ts) = sum_list (map pending ts)"
| "pending (Rejected e ts) = sum_list (map pending ts)"
| "pending (Settled r) = 0"
| "pending t = 1"

subsection \<open>Scenarios\<close>

text \<open>The configuration of the specification's scenario, and small trees to run it on.\<close>

definition c_config :: langConfig where
  "c_config = \<lparr>open_delim = ''/*'', close_delim = ''*/'', lang = Some ''c''\<rparr>"

definition demo_env :: env where
  "demo_env = \<lparr>config = [''foo'' \<mapsto> c_config], eol = [LF]\<rparr>"

definition demo_world :: world where
  "demo_world = \<lparr>entries =
      [([''in''], Dir), ([''in'', ''a.foo''], File ''x''), ([''in'', ''readme.txt''], File ''t''),
       ([''in'', ''sub''], Dir), ([''in'', ''sub'', ''b.foo''], File ''y'')],
     stdout = []\<rparr>"

definition proto_world :: world where
  "proto_world = \<lparr>entries = [([''in''], Dir), ([''in'', ''notes.constructor''], File ''x'')],
                  stdout = []\<rparr>"

definition failing_world :: world where
  "failing_world = \<lparr>entries =
      [([''in''], Dir), ([''in'', ''a.foo''], File ''x''), ([''in'', ''b.foo''], File ''y''),
       ([''out''], Dir), ([''out'', ''a.md''], Dir), ([''out'', ''b.md''], Dir)],
     stdout = []\<rparr>"

definition overlap_world :: world where
  "overlap_world = \<lparr>entries =
      [([''d''], Dir), ([''d'', ''a.foo''], File ''x''), ([''d'', ''a.md''], File ''keep'')],
     stdout = []\<rparr>"

definition single_world :: world where
  "single_world = \<lparr>entries = [([''src''], Dir), ([''src'', ''x.md''], File ''x'')], stdout = []\<rparr>"

text \<open>
  What a run with input root \<open>inp\<close> and output root \<open>out\<close> may have done to the path \<open>q\<close>:
  left it as it was; made a directory where there was nothing, on the way to the
  output path that mirrors a regular file of the input tree; or written a regular file,
  not in the place of a directory, at the \<^verbatim>\<open>.md\<close> path of the output path that mirrors a
  regular file of the input tree.
\<close>

definition touched :: "path \<Rightarrow> path \<Rightarrow> world \<Rightarrow> world \<Rightarrow> path \<Rightarrow> bool" where
  "touched inp out w w' q =
     (lookup w' q = lookup w q
      \<or> (lookup w q = None \<and> lookup w' q = Some Dir
          \<and> (\<exists>rel r c. r \<noteq> [] \<and> q @ r = out @ rel \<and> lookup w' (inp @ rel) = Some (File c)))
      \<or> (lookup w q \<noteq> Some Dir
          \<and> (\<exists>rel c md. out @ rel \<noteq> [] \<and> q = md_path (out @ rel) \<and> lookup w' q = Some (File md)
                \<and> lookup w' (inp @ rel) = Some (File c))))"

text \<open>
  \<open>frame\<close> is \<open>touched\<close> at every path. A task mirrors the roots when its two paths are
  the same relative path under the input and the output root and, once \<^verbatim>\<open>fs.stat\<close> has
  found a regular file, that file is there. A tree of tasks is well formed when no call
  is still waiting for children of which one is rejected or of which all are fulfilled.
\<close>

fun mirrors :: "path \<Rightarrow> path \<Rightarrow> world \<Rightarrow> task \<Rightarrow> bool" where
  "mirrors inp out w (Call ip op) = (\<exists>rel. ip = inp @ rel \<and> op = out @ rel)"
| "mirrors inp out w (Listing ip op) = (\<exists>rel. ip = inp @ rel \<and> op = out @ rel)"
| "mirrors inp out w (Making ip op) =
     ((\<exists>rel. ip = inp @ rel \<and> op = out @ rel) \<and> (\<exists>c. lookup w ip = Some (File c)))"
| "mirrors inp out w (Reading ip op) =
     ((\<exists>rel. ip = inp @ rel \<and> op = out @ rel) \<and> (\<exists>c. lookup w ip = Some (File c)) \<and> op \<noteq> [])"
| "mirrors inp out w (Writing ip op m) =
     ((\<exists>rel. ip = inp @ rel \<and> op = out @ rel) \<and> (\<exists>c. lookup w ip = Some (File c)) \<and> op \<noteq> [])"
| "mirrors inp out w (Waiting ts) = (\<forall>t\<in>set ts. mirrors inp out w t)"
| "mirrors inp out w (Rejected e ts) = (\<forall>t\<in>set ts. mirrors inp out w t)"
| "mirrors inp out w (Settled r) = True"

definition frame :: "path \<Rightarrow> path \<Rightarrow> world \<Rightarrow> world \<Rightarrow> bool" where
  "frame inp out w w' = (\<forall>q. touched inp out w w' q)"

fun well_formed :: "task \<Rightarrow> bool" where
  "well_formed (Waiting ts) =
     (ts \<noteq> [] \<and> (\<forall>t\<in>set ts. well_formed t \<and> (\<forall>e. outcome t \<noteq> Some (Inl e)))
      \<and> \<not> list_all (\<lambda>t. outcome t = Some (Inr ())) ts)"
| "well_formed (Rejected e ts) = (\<forall>t\<in>set ts. well_formed t)"
| "well_formed t = True"

subsection \<open>Vocabulary of the properties\<close>

text \<open>
  The syntax trees of the script's patterns. \<open>nl_group n\<close> is the group \<^verbatim>\<open>(\r?\n)\<close> with
  capture index \<open>n\<close>; a delimiter \<open>d\<close> stands in a pattern as the sequence of its
  characters. \<open>escape_char\<close> is what \<^verbatim>\<open>escape\<close> makes of one character.
\<close>

definition nl_group :: "nat \<Rightarrow> regex" where
  "nl_group n = Group n (mk_seq [Opt (Chr CR), Chr LF])"

definition escape_char :: "char \<Rightarrow> string" where
  "escape_char c = (if c \<in> set syntax_chars then [BSL, c] else [c])"

definition start_ast :: "string \<Rightarrow> regex" where
  "start_ast d = mk_seq ([Bol, Star (nl_group 1)] @ map Chr d @ [Plus (nl_group 2)])"

definition end_ast :: "string \<Rightarrow> regex" where
  "end_ast d = mk_seq ([Plus (nl_group 1)] @ map Chr d @ [Star (nl_group 2), Eol])"

definition interior_ast :: "string \<Rightarrow> regex" where
  "interior_ast d = mk_seq ([Plus (nl_group 1)] @ map Chr d @ [Plus (nl_group 2)])"

text \<open>
  Line breaks: \<open>nl_split\<close> takes one line break, a line feed or a carriage return and a
  line feed, off the front of a text; \<open>breaks u\<close> says that \<open>u\<close> is made of line breaks
  and nothing else.
\<close>

definition nl_split :: "string \<Rightarrow> (string \<times> string) option" where
  "nl_split s =
     (case s of
        [] \<Rightarrow> None
      | x # t \<Rightarrow>
          if x = LF then Some ([LF], t)
          else if x = CR then (case t of [] \<Rightarrow> None | y # t' \<Rightarrow> if y = LF then Some ([CR, LF], t') else None)
          else None)"

fun breaks :: "string \<Rightarrow> bool" where
  "breaks [] = True"
| "breaks (x # t) =
     (if x = LF then breaks t
      else if x = CR then (case t of [] \<Rightarrow> False | y # t' \<Rightarrow> y = LF \<and> breaks t')
      else False)"

text \<open>
  \<open>own_line d t\<close>: the text \<open>t\<close> has an occurrence of \<open>d\<close> that starts a line (it is at
  the start of \<open>t\<close> or follows a line feed) and is followed by a line-break character
  or by the end of \<open>t\<close>. An occurrence that has other text before it or after it on its
  line is not of this kind. \<open>own_line_scan\<close> computes it.
\<close>

definition own_line :: "string \<Rightarrow> string \<Rightarrow> bool" where
  "own_line d t =
     (\<exists>A B. t = A @ d @ B \<and> (A = [] \<or> last A = LF) \<and> (B = [] \<or> hd B = LF \<or> hd B = CR))"



definition plain :: "string \<Rightarrow> bool" where
  "plain d = (d \<noteq> [] \<and> CR \<notin> set d \<and> LF \<notin> set d)"

text \<open>
  A literate source as its author means it: a sequence of blocks, each a prose block
  (written between an open and a close delimiter, each on a line of its own) or a code
  block (written as it is). \<open>render\<close> writes the source file of such a sequence,
  \<open>render_md\<close> the Markdown that shows it: the prose as it is, each code block between
  an opening fence line that carries the tag and a closing fence line, and one blank
  line between two blocks.
\<close>

datatype seg = ProseBlock string | CodeBlock string





fun src :: "string \<Rightarrow> langConfig \<Rightarrow> seg \<Rightarrow> string" where
  "src b lc (ProseBlock p) = open_delim lc @ b @ p @ b @ close_delim lc"
| "src b lc (CodeBlock c) = c"


fun md :: "string \<Rightarrow> string \<Rightarrow> seg \<Rightarrow> string" where
  "md nl tag (ProseBlock p) = p"
| "md nl tag (CodeBlock c) = fence @ tag @ nl @ c @ nl @ fence"










subsection \<open>The conversion with literal matching\<close>

text \<open>
  The conversion written a second time, from the words of the specification (section
  4.2, steps 3 to 7) and without regular expressions, for comparison with \<open>convert\<close>: a
  delimiter is found where the text, after line breaks, continues with the characters
  of the delimiter and then with line breaks. \<open>runs s\<close> lists the ways to take line breaks
  off the front of \<open>s\<close>, the longest run first; \<open>runs1\<close> leaves out the empty run;
  \<open>last_break u\<close> is the last line break of the run \<open>u\<close>.
\<close>

lemma nl_split_shorter: "nl_split s = Some (b, t) \<Longrightarrow> s = b @ t \<and> b \<noteq> [] \<and> (b = [LF] \<or> b = [CR, LF])"
  by (auto simp: nl_split_def split: list.splits if_splits)

lemma breaks_split: "nl_split s = Some (b, t) \<Longrightarrow> breaks (b @ u) = breaks u"
  by (auto simp: nl_split_def split: list.splits if_splits)

function runs :: "string \<Rightarrow> (string \<times> string) list" where
  "runs s =
     (case nl_split s of
        None \<Rightarrow> [([], s)]
      | Some (b, t) \<Rightarrow> map (\<lambda>(u, r). (b @ u, r)) (runs t) @ [([], s)])"
  by pat_completeness auto
termination
proof (relation "measure length", goal_cases)
  case 1 show ?case by simp
next
  case (2 s x2 b t)
  then have "nl_split s = Some (b, t)" by simp
  from nl_split_shorter[OF this] show ?case by auto
qed

declare runs.simps [simp del]

definition runs1 :: "string \<Rightarrow> (string \<times> string) list" where
  "runs1 s = butlast (runs s)"

definition last_break :: "string \<Rightarrow> string" where
  "last_break u = (if take 2 (rev u) = [LF, CR] then [CR, LF] else [LF])"

text \<open>
  What can be taken off the front of \<open>s\<close> as a leading delimiter (line breaks or none,
  the delimiter, line breaks), as a trailing one (line breaks, the delimiter, line
  breaks or none, and the end of the text) and as an interior one (line breaks on both
  sides): the run before, the run after and the rest, in the order of preference, longer
  runs first.
\<close>

definition start_at :: "string \<Rightarrow> string \<Rightarrow> (string \<times> string \<times> string) list" where
  "start_at d s =
     [(u, v, r') . (u, r) \<leftarrow> runs s, take (length d) r = d, (v, r') \<leftarrow> runs1 (drop (length d) r)]"

definition end_at :: "string \<Rightarrow> string \<Rightarrow> (string \<times> string \<times> string) list" where
  "end_at d s =
     [(u, v, r') . (u, r) \<leftarrow> runs1 s, take (length d) r = d, (v, r') \<leftarrow> runs (drop (length d) r),
                   r' = []]"

definition interior_at :: "string \<Rightarrow> string \<Rightarrow> (string \<times> string \<times> string) list" where
  "interior_at d s =
     [(u, v, r') . (u, r) \<leftarrow> runs1 s, take (length d) r = d, (v, r') \<leftarrow> runs1 (drop (length d) r)]"

lemma runs_None: "nl_split s = None \<Longrightarrow> runs s = [([], s)]"
  by (subst runs.simps) simp

lemma runs_Some: "nl_split s = Some (b, t) \<Longrightarrow> runs s = map (\<lambda>(u, r). (b @ u, r)) (runs t) @ [([], s)]"
  by (subst runs.simps) simp

lemma runs1_None: "nl_split s = None \<Longrightarrow> runs1 s = []"
  by (simp add: runs1_def runs_None)

lemma runs1_Some: "nl_split s = Some (b, t) \<Longrightarrow> runs1 s = map (\<lambda>(u, r). (b @ u, r)) (runs t)"
  by (simp add: runs1_def runs_Some)

lemma runs_sound: "(u, r) \<in> set (runs s) \<Longrightarrow> breaks u \<and> s = u @ r"
proof (induction s arbitrary: u r rule: runs.induct)
  case (1 s)
  show ?case
  proof (cases "nl_split s")
    case None
    with 1(2) show ?thesis by (simp add: runs_None)
  next
    case (Some a)
    obtain b t where a: "a = (b, t)" by (cases a)
    from 1(2) Some a consider "u = []" "r = s"
      | u' where "u = b @ u'" "(u', r) \<in> set (runs t)"
      by (auto simp: runs_Some)
    then show ?thesis
    proof cases
      case 1 then show ?thesis by simp
    next
      case 2
      from 1(1)[OF Some[unfolded a] refl 2(2)] have "breaks u'" "t = u' @ r" by auto
      with 2(1) nl_split_shorter[OF Some[unfolded a]] breaks_split[OF Some[unfolded a], of u']
      show ?thesis by auto
    qed
  qed
qed

lemma runs1_sound: "(u, r) \<in> set (runs1 s) \<Longrightarrow> breaks u \<and> u \<noteq> [] \<and> s = u @ r"
proof (cases "nl_split s")
  case None
  assume "(u, r) \<in> set (runs1 s)"
  with None show ?thesis by (simp add: runs1_None)
next
  case (Some a)
  obtain b t where a: "a = (b, t)" by (cases a)
  assume "(u, r) \<in> set (runs1 s)"
  with Some a obtain u' where u: "u = b @ u'" "(u', r) \<in> set (runs t)" by (auto simp: runs1_Some)
  from runs_sound[OF u(2)] have "breaks u'" "t = u' @ r" by auto
  with u(1) nl_split_shorter[OF Some[unfolded a]] breaks_split[OF Some[unfolded a], of u']
  show ?thesis by auto
qed

lemma interior_at_sound:
  assumes "(u, v, r) \<in> set (interior_at d s)"
  shows "breaks u \<and> u \<noteq> [] \<and> breaks v \<and> v \<noteq> [] \<and> s = u @ d @ v @ r"
proof -
  from assms obtain r0 where a: "(u, r0) \<in> set (runs1 s)" "take (length d) r0 = d"
      "(v, r) \<in> set (runs1 (drop (length d) r0))"
    by (auto simp: interior_at_def split: if_splits)
  from a(2) have "r0 = d @ drop (length d) r0" by (metis append_take_drop_id)
  with runs1_sound[OF a(1)] runs1_sound[OF a(3)] show ?thesis by auto
qed

lemma interior_at_shorter: "interior_at d s = (u, v, r) # rest \<Longrightarrow> length r < length s"
proof -
  assume "interior_at d s = (u, v, r) # rest"
  then have "(u, v, r) \<in> set (interior_at d s)" by simp
  from interior_at_sound[OF this] show ?thesis by (cases u) auto
qed

text \<open>
  Step 5 strips a leading open delimiter; step 6 strips a trailing close delimiter, found
  at the first place from which it reaches the end of the text; step 7 replaces every
  interior delimiter from left to right, resuming after each one. The replacement text
  is expanded by \<open>GetSubstitution\<close>, as \<^verbatim>\<open>replace\<close> does, with the last line break of each run
  as the two captures.
\<close>

definition literal_start :: "string \<Rightarrow> string \<Rightarrow> string option" where
  "literal_start d s = (case start_at d s of [] \<Rightarrow> None | (u, v, r) # rest \<Rightarrow> Some r)"

fun literal_end :: "string \<Rightarrow> string \<Rightarrow> string option" where
  "literal_end d [] = None"
| "literal_end d (x # xs) =
     (if end_at d (x # xs) \<noteq> [] then Some [] else map_option ((#) x) (literal_end d xs))"

function literal_subst :: "string \<Rightarrow> string \<Rightarrow> string \<Rightarrow> nat \<Rightarrow> string \<Rightarrow> string" where
  "literal_subst d repl whole i s =
     (case interior_at d s of
        (u, v, r) # rest \<Rightarrow>
          GetSubstitution (u @ d @ v) (take i whole) r
            [1 \<mapsto> last_break u, 2 \<mapsto> last_break v] 2 repl
          @ literal_subst d repl whole (i + length (u @ d @ v)) r
      | [] \<Rightarrow> (case s of [] \<Rightarrow> [] | x # xs \<Rightarrow> x # literal_subst d repl whole (Suc i) xs))"
  by pat_completeness auto
termination
  by (relation "measure (\<lambda>(d, repl, whole, i, s). length s)")
     (auto dest: interior_at_shorter)

declare literal_subst.simps [simp del]

definition convert_literal :: "string \<Rightarrow> langConfig \<Rightarrow> string \<Rightarrow> string \<Rightarrow> string" where
  "convert_literal nl langConfig ext contents =
     (let tag = js_or (lang langConfig) ext;
          contents1 = (case literal_start (open_delim langConfig) contents of
                         Some r \<Rightarrow> r
                       | None \<Rightarrow> fence @ tag @ nl @ contents);
          contents2 = (case literal_end (close_delim langConfig) contents1 of
                         Some r \<Rightarrow> r
                       | None \<Rightarrow> contents1 @ nl @ fence);
          contents3 = literal_subst (close_delim langConfig) (nl @ nl @ fence @ tag @ nl)
                        contents2 0 contents2
      in literal_subst (open_delim langConfig) (nl @ fence @ nl @ nl) contents3 0 contents3)"

section \<open>Auxiliary facts\<close>

subsection \<open>The search and the replacement loop, step by step\<close>

lemma first_match_pos:
  "first_match r i s = Some (p, sp, st) \<Longrightarrow> i \<le> p \<and> sp = drop (p - i) s \<and> p - i \<le> length s"
proof (induction r i s rule: first_match.induct)
  case (1 r i)
  then show ?case by (auto split: list.splits)
next
  case (2 r i x xs)
  show ?case
  proof (cases "matcher r (i, x # xs, Map.empty)")
    case Nil
    with 2 have "Suc i \<le> p \<and> sp = drop (p - Suc i) xs \<and> p - Suc i \<le> length xs" by simp
    moreover then have "p - i = Suc (p - Suc i)" by arith
    ultimately show ?thesis by simp
  next
    case (Cons a list)
    with 2(2) show ?thesis by auto
  qed
qed

lemma first_match_hit:
  "matcher r (i, s, Map.empty) = st # rest \<Longrightarrow> first_match r i s = Some (i, s, st)"
  by (cases s) auto

lemma first_match_miss:
  "matcher r (i, x # xs, Map.empty) = [] \<Longrightarrow> first_match r i (x # xs) = first_match r (Suc i) xs"
  by simp

lemma replace_loop_miss:
  assumes "matcher (ast re) (i, x # xs, Map.empty) = []"
  shows "replace_loop re repl whole i (x # xs) = x # replace_loop re repl whole (Suc i) xs"
proof (cases "first_match (ast re) (Suc i) xs")
  case None
  with assms show ?thesis
    by (simp add: replace_loop.simps[of re repl whole i] replace_loop.simps[of re repl whole "Suc i"])
next
  case (Some a)
  obtain p sp e s' caps where a: "a = (p, sp, e, s', caps)" by (cases a) auto
  from first_match_pos[OF Some[unfolded a]] have "Suc i \<le> p" by simp
  then have "p - i = Suc (p - Suc i)" by arith
  then have "take (p - i) (x # xs) = x # take (p - Suc i) xs"
    by simp
  with assms Some a show ?thesis
    by (simp add: replace_loop.simps[of re repl whole i] replace_loop.simps[of re repl whole "Suc i"])
qed

lemma replace_loop_end:
  "matcher (ast re) (i, [], Map.empty) = [] \<Longrightarrow> replace_loop re repl whole i [] = []"
  by (simp add: replace_loop.simps[of re repl whole i])

lemma replace_loop_hit:
  assumes "matcher (ast re) (i, s, Map.empty) = (e, s', caps) # rest"
  shows "replace_loop re repl whole i s =
           GetSubstitution (take (e - i) s) (take i whole) s' caps (ncaps re) repl
           @ (if take (e - i) s = [] then
                (case s' of [] \<Rightarrow> [] | x # xs \<Rightarrow> x # replace_loop re repl whole (Suc e) xs)
              else replace_loop re repl whole e s')"
  using first_match_hit[OF assms]
  by (simp add: replace_loop.simps[of re repl whole i])

lemma first_match_None:
  "first_match r i s = None \<longleftrightarrow> (\<forall>k \<le> length s. matcher r (i + k, drop k s, Map.empty) = [])"
proof (induction r i s rule: first_match.induct)
  case (1 r i)
  then show ?case by (auto split: list.splits)
next
  case (2 r i x xs)
  show ?case
  proof (cases "matcher r (i, x # xs, Map.empty)")
    case Nil
    have "(\<forall>k\<le>length (x # xs). matcher r (i + k, drop k (x # xs), Map.empty) = []) \<longleftrightarrow>
          (\<forall>k\<le>length xs. matcher r (Suc i + k, drop k xs, Map.empty) = [])"
    proof
      assume a: "\<forall>k\<le>length (x # xs). matcher r (i + k, drop k (x # xs), Map.empty) = []"
      show "\<forall>k\<le>length xs. matcher r (Suc i + k, drop k xs, Map.empty) = []"
      proof (intro allI impI)
        fix k assume "k \<le> length xs"
        with a[rule_format, of "Suc k"] show "matcher r (Suc i + k, drop k xs, Map.empty) = []" by simp
      qed
    next
      assume a: "\<forall>k\<le>length xs. matcher r (Suc i + k, drop k xs, Map.empty) = []"
      show "\<forall>k\<le>length (x # xs). matcher r (i + k, drop k (x # xs), Map.empty) = []"
      proof (intro allI impI)
        fix k assume k: "k \<le> length (x # xs)"
        show "matcher r (i + k, drop k (x # xs), Map.empty) = []"
        proof (cases k)
          case 0 with Nil show ?thesis by simp
        next
          case (Suc j) with k a[rule_format, of j] show ?thesis by simp
        qed
      qed
    qed
    with 2 Nil show ?thesis by simp
  next
    case (Cons a list)
    then have "\<not> (\<forall>k\<le>length (x # xs). matcher r (i + k, drop k (x # xs), Map.empty) = [])"
      by (auto intro!: exI[of _ 0])
    with Cons show ?thesis by simp
  qed
qed

lemma replace_loop_no_match:
  "first_match (ast re) i s = None \<Longrightarrow> replace_loop re repl whole i s = s"
  by (simp add: replace_loop.simps[of re repl whole i])

lemma escape_loop:
  "replace_loop \<lparr>ast = Cls syntax_chars, ncaps = 0, global = True\<rparr> [BSL, CHR ''$'', CHR ''&''] whole i s
     = concat (map escape_char s)"
proof (induction s arbitrary: i)
  case Nil
  show ?case by (simp add: replace_loop_end)
next
  case (Cons x xs)
  show ?case
  proof (cases "x \<in> set syntax_chars")
    case True
    then have "matcher (ast \<lparr>ast = Cls syntax_chars, ncaps = 0, global = True\<rparr>) (i, x # xs, Map.empty)
                 = (Suc i, xs, Map.empty) # []" by simp
    from replace_loop_hit[OF this] True Cons show ?thesis
      by (simp add: escape_char_def)
  next
    case False
    then have "matcher (ast \<lparr>ast = Cls syntax_chars, ncaps = 0, global = True\<rparr>) (i, x # xs, Map.empty) = []"
      by simp
    from replace_loop_miss[OF this] False Cons show ?thesis
      by (simp add: escape_char_def)
  qed
qed

lemma escape_eq: "escape w = concat (map escape_char w)"
  by (simp add: escape_def String_replace_def replace_all_def escape_loop)

lemma compile_escape_char:
  "compile_loop (f # fs, n) (escape_char c @ rest)
     = compile_loop (f\<lparr>cur := Chr c # cur f\<rparr> # fs, n) rest"
proof (cases "c \<in> set syntax_chars")
  case True
  then show ?thesis
    by (simp add: escape_char_def escape_atom_def push_term_def)
next
  case False
  then have "c \<noteq> BSL" "pattern_step c (f # fs, n) = Some (f\<lparr>cur := Chr c # cur f\<rparr> # fs, n)"
    by (auto simp: syntax_chars_def pattern_step_def push_term_def)
  with False show ?thesis by (simp add: escape_char_def)
qed

lemma compile_escape:
  "compile_loop (f # fs, n) (escape w @ rest)
     = compile_loop (f\<lparr>cur := rev (map Chr w) @ cur f\<rparr> # fs, n) rest"
proof (induction w arbitrary: f)
  case Nil
  show ?case by (simp add: escape_eq)
next
  case (Cons c w)
  have "compile_loop (f # fs, n) (escape (c # w) @ rest)
        = compile_loop (f # fs, n) (escape_char c @ (escape w @ rest))"
    by (simp add: escape_eq)
  also have "\<dots> = compile_loop (f\<lparr>cur := Chr c # cur f\<rparr> # fs, n) (escape w @ rest)"
    by (rule compile_escape_char)
  also have "\<dots> = compile_loop (f\<lparr>cur := Chr c # cur f, cur := rev (map Chr w) @ Chr c # cur f\<rparr> # fs, n) rest"
    using Cons[of "f\<lparr>cur := Chr c # cur f\<rparr>"] by simp
  finally show ?case by simp
qed

lemma compile_nl:
  "compile_loop (f # fs, n) (nl_src @ rest)
     = compile_loop (f\<lparr>cur := nl_group (Suc n) # cur f\<rparr> # fs, Suc n) rest"
  by (simp add: nl_src_def nl_group_def pattern_step_def push_term_def quantify_def escape_atom_def
      syntax_chars_def close_frame_def mk_seq_def)

lemma compile_star:
  "quantifiable t \<Longrightarrow> cur f = t # ts \<Longrightarrow>
   compile_loop (f # fs, n) (CHR ''*'' # rest) = compile_loop (f\<lparr>cur := Star t # ts\<rparr> # fs, n) rest"
  by (simp add: pattern_step_def quantify_def)

lemma compile_plus:
  "quantifiable t \<Longrightarrow> cur f = t # ts \<Longrightarrow>
   compile_loop (f # fs, n) (CHR ''+'' # rest) = compile_loop (f\<lparr>cur := Plus t # ts\<rparr> # fs, n) rest"
  by (simp add: pattern_step_def quantify_def)

lemma quantifiable_nl [simp]: "quantifiable (nl_group n)"
  by (simp add: nl_group_def)

lemma RegExp_start:
  "RegExp_new (start_src (escape d)) [] =
     Some \<lparr>ast = mk_seq ([Bol, Star (nl_group 1)] @ map Chr d @ [Plus (nl_group 2)]),
           ncaps = 2, global = False\<rparr>"
proof -
  let ?f0 = "\<lparr>alts = [], cur = [], gidx = 0\<rparr>"
  have "compile_loop ([?f0], 0) (start_src (escape d))
        = compile_loop ([?f0\<lparr>cur := [Bol]\<rparr>], 0) (nl_src @ CHR ''*'' # escape d @ nl_src @ ''+'')"
    by (simp add: start_src_def pattern_step_def push_term_def)
  also have "\<dots> = compile_loop ([?f0\<lparr>cur := [nl_group 1, Bol]\<rparr>], 1) (CHR ''*'' # escape d @ nl_src @ ''+'')"
    by (simp add: compile_nl)
  also have "\<dots> = compile_loop ([?f0\<lparr>cur := [Star (nl_group 1), Bol]\<rparr>], 1) (escape d @ nl_src @ ''+'')"
    by (subst compile_star[where t = "nl_group 1" and ts = "[Bol]"]) simp_all
  also have "\<dots> = compile_loop ([?f0\<lparr>cur := rev (map Chr d) @ [Star (nl_group 1), Bol]\<rparr>], 1) (nl_src @ ''+'')"
    by (simp add: compile_escape)
  also have "\<dots> = compile_loop ([?f0\<lparr>cur := nl_group 2 # rev (map Chr d) @ [Star (nl_group 1), Bol]\<rparr>], 2) ''+''"
    by (simp add: compile_nl numeral_2_eq_2)
  also have "\<dots> = compile_loop ([?f0\<lparr>cur := Plus (nl_group 2) # rev (map Chr d) @ [Star (nl_group 1), Bol]\<rparr>], 2) []"
    by (subst compile_plus[where t = "nl_group 2" and ts = "rev (map Chr d) @ [Star (nl_group 1), Bol]"]) simp_all
  also have "\<dots> = Some (mk_seq ([Bol, Star (nl_group 1)] @ map Chr d @ [Plus (nl_group 2)]), 2)"
    by (simp add: close_frame_def)
  finally show ?thesis by (simp add: RegExp_new_def)
qed

lemma RegExp_end:
  "RegExp_new (end_src (escape d)) [] =
     Some \<lparr>ast = mk_seq ([Plus (nl_group 1)] @ map Chr d @ [Star (nl_group 2), Eol]),
           ncaps = 2, global = False\<rparr>"
proof -
  let ?f0 = "\<lparr>alts = [], cur = [], gidx = 0\<rparr>"
  have "compile_loop ([?f0], 0) (end_src (escape d))
        = compile_loop ([?f0\<lparr>cur := [nl_group 1]\<rparr>], 1) (CHR ''+'' # escape d @ nl_src @ ''*$'')"
    by (simp add: end_src_def compile_nl)
  also have "\<dots> = compile_loop ([?f0\<lparr>cur := [Plus (nl_group 1)]\<rparr>], 1) (escape d @ nl_src @ ''*$'')"
    by (subst compile_plus[where t = "nl_group 1" and ts = "[]"]) simp_all
  also have "\<dots> = compile_loop ([?f0\<lparr>cur := rev (map Chr d) @ [Plus (nl_group 1)]\<rparr>], 1) (nl_src @ ''*$'')"
    by (simp add: compile_escape)
  also have "\<dots> = compile_loop ([?f0\<lparr>cur := nl_group 2 # rev (map Chr d) @ [Plus (nl_group 1)]\<rparr>], 2) ''*$''"
    by (simp add: compile_nl numeral_2_eq_2)
  also have "\<dots> = compile_loop ([?f0\<lparr>cur := Star (nl_group 2) # rev (map Chr d) @ [Plus (nl_group 1)]\<rparr>], 2) ''$''"
    by (subst compile_star[where t = "nl_group 2" and ts = "rev (map Chr d) @ [Plus (nl_group 1)]"]) simp_all
  also have "\<dots> = Some (mk_seq ([Plus (nl_group 1)] @ map Chr d @ [Star (nl_group 2), Eol]), 2)"
    by (simp add: close_frame_def pattern_step_def push_term_def)
  finally show ?thesis by (simp add: RegExp_new_def)
qed

lemma RegExp_interior:
  "RegExp_new (interior_src (escape d)) ''g'' =
     Some \<lparr>ast = mk_seq ([Plus (nl_group 1)] @ map Chr d @ [Plus (nl_group 2)]),
           ncaps = 2, global = True\<rparr>"
proof -
  let ?f0 = "\<lparr>alts = [], cur = [], gidx = 0\<rparr>"
  have "compile_loop ([?f0], 0) (interior_src (escape d))
        = compile_loop ([?f0\<lparr>cur := [nl_group 1]\<rparr>], 1) (CHR ''+'' # escape d @ nl_src @ ''+'')"
    by (simp add: interior_src_def compile_nl)
  also have "\<dots> = compile_loop ([?f0\<lparr>cur := [Plus (nl_group 1)]\<rparr>], 1) (escape d @ nl_src @ ''+'')"
    by (subst compile_plus[where t = "nl_group 1" and ts = "[]"]) simp_all
  also have "\<dots> = compile_loop ([?f0\<lparr>cur := rev (map Chr d) @ [Plus (nl_group 1)]\<rparr>], 1) (nl_src @ ''+'')"
    by (simp add: compile_escape)
  also have "\<dots> = compile_loop ([?f0\<lparr>cur := nl_group 2 # rev (map Chr d) @ [Plus (nl_group 1)]\<rparr>], 2) ''+''"
    by (simp add: compile_nl numeral_2_eq_2)
  also have "\<dots> = compile_loop ([?f0\<lparr>cur := Plus (nl_group 2) # rev (map Chr d) @ [Plus (nl_group 1)]\<rparr>], 2) []"
    by (subst compile_plus[where t = "nl_group 2" and ts = "rev (map Chr d) @ [Plus (nl_group 1)]"]) simp_all
  also have "\<dots> = Some (mk_seq ([Plus (nl_group 1)] @ map Chr d @ [Plus (nl_group 2)]), 2)"
    by (simp add: close_frame_def)
  finally show ?thesis by (simp add: RegExp_new_def)
qed

lemma RegExp_literal:
  "RegExp_new (escape d) [] = Some \<lparr>ast = mk_seq (map Chr d), ncaps = 0, global = False\<rparr>"
proof -
  let ?f0 = "\<lparr>alts = [], cur = [], gidx = 0\<rparr>"
  have "compile_loop ([?f0], 0) (escape d @ []) = compile_loop ([?f0\<lparr>cur := rev (map Chr d) @ []\<rparr>], 0) []"
    by (simp only: compile_escape frame.simps)
  then show ?thesis by (simp add: RegExp_new_def close_frame_def)
qed

subsection \<open>What the compiled patterns match\<close>

lemma matcher_mk_seq_Nil [simp]: "matcher (mk_seq []) st = [st]"
  by (simp add: mk_seq_def)

lemma matcher_mk_seq_Cons [simp]:
  "matcher (mk_seq (t # ts)) st = concat (map (matcher (mk_seq ts)) (matcher t st))"
  by (simp add: mk_seq_def)

lemma matcher_chars:
  "matcher (mk_seq (map Chr w @ ts)) (i, s, c)
     = (if take (length w) s = w then matcher (mk_seq ts) (i + length w, drop (length w) s, c) else [])"
proof (induction w arbitrary: i s)
  case Nil
  show ?case by simp
next
  case (Cons x w)
  show ?case
  proof (cases s)
    case Nil
    then show ?thesis by simp
  next
    case (Cons y ys)
    with Cons.IH[of "Suc i" ys] show ?thesis by simp
  qed
qed

lemma clear_Nil [simp]: "clear [] c = c"
  by (simp add: clear_def)

lemma clear_upd [simp]: "(clear [n] c)(n \<mapsto> b) = c(n \<mapsto> b)"
  by (auto simp: clear_def)

lemma groups_of_nl [simp]: "groups_of (nl_group n) = [n]"
  by (simp add: nl_group_def mk_seq_def)

lemma matcher_nl_group:
  "matcher (nl_group n) (i, s, c)
     = (case nl_split s of None \<Rightarrow> [] | Some (b, t) \<Rightarrow> [(i + length b, t, c(n \<mapsto> b))])"
  by (auto simp: nl_group_def nl_split_def split: list.splits)

lemma matcher_Star_nl:
  "matcher (Star (nl_group n)) (i, s, c)
     = (case nl_split s of
          None \<Rightarrow> [(i, s, c)]
        | Some (b, t) \<Rightarrow> matcher (Star (nl_group n)) (i + length b, t, c(n \<mapsto> b)) @ [(i, s, c)])"
proof (cases "nl_split s")
  case None
  then show ?thesis by (subst matcher.simps(11)) (simp add: matcher_nl_group)
next
  case (Some a)
  obtain b t where a: "a = (b, t)" by (cases a)
  from nl_split_shorter[OF Some[unfolded a]] have "length t < length s" by auto
  with Some a show ?thesis by (subst matcher.simps(11)) (simp add: matcher_nl_group)
qed

lemma matcher_Plus_nl:
  "matcher (Plus (nl_group n)) (i, s, c)
     = (case nl_split s of
          None \<Rightarrow> []
        | Some (b, t) \<Rightarrow> matcher (Star (nl_group n)) (i + length b, t, c(n \<mapsto> b)))"
  by (simp add: matcher_nl_group split: option.splits)

lemma breaks_last: "breaks u \<Longrightarrow> u \<noteq> [] \<Longrightarrow> last u = LF"
  by (induction u rule: breaks.induct) (auto split: if_splits list.splits)

lemma breaks_hd: "breaks u \<Longrightarrow> u \<noteq> [] \<Longrightarrow> hd u = LF \<or> hd u = CR"
  by (cases u) (auto split: if_splits)

lemma breaks_append: "breaks u \<Longrightarrow> breaks v \<Longrightarrow> breaks (u @ v)"
  by (induction u rule: breaks.induct) (auto split: if_splits list.splits)

lemma breaks_nl_split: "breaks u \<Longrightarrow> u \<noteq> [] \<Longrightarrow> nl_split (u @ r) \<noteq> None"
  by (cases u) (auto simp: nl_split_def split: if_splits list.splits)

lemma star_shape:
  "(j, s', c') \<in> set (matcher (Star (nl_group n)) (i, s, c))
     \<Longrightarrow> \<exists>u. breaks u \<and> s = u @ s' \<and> j = i + length u"
proof (induction "length s" arbitrary: i s c rule: less_induct)
  case less
  show ?case
  proof (cases "nl_split s")
    case None
    with less.prems have "(j, s', c') = (i, s, c)"
      by (subst (asm) matcher_Star_nl) simp
    then show ?thesis by (intro exI[of _ "[]"]) simp
  next
    case (Some a)
    obtain b t where a: "a = (b, t)" by (cases a)
    note sp = nl_split_shorter[OF Some[unfolded a]]
    from less.prems Some a consider "(j, s', c') = (i, s, c)"
      | "(j, s', c') \<in> set (matcher (Star (nl_group n)) (i + length b, t, c(n \<mapsto> b)))"
      by (subst (asm) matcher_Star_nl) auto
    then show ?thesis
    proof cases
      case 1 then show ?thesis by (intro exI[of _ "[]"]) simp
    next
      case 2
      from sp have "length t < length s" by auto
      from less.hyps[OF this 2] obtain u where u: "breaks u" "t = u @ s'" "j = i + length b + length u"
        by blast
      from breaks_split[OF Some[unfolded a], of u] u(1) have "breaks (b @ u)" by simp
      with u sp show ?thesis by (intro exI[of _ "b @ u"]) simp
    qed
  qed
qed

lemma plus_shape:
  assumes "(j, s', c') \<in> set (matcher (Plus (nl_group n)) (i, s, c))"
  shows "\<exists>u. breaks u \<and> u \<noteq> [] \<and> s = u @ s' \<and> j = i + length u"
proof (cases "nl_split s")
  case None
  with assms[unfolded matcher_Plus_nl] show ?thesis by simp
next
  case (Some a)
  obtain b t where a: "a = (b, t)" by (cases a)
  note sp = nl_split_shorter[OF Some[unfolded a]]
  from assms[unfolded matcher_Plus_nl] Some a
  have "(j, s', c') \<in> set (matcher (Star (nl_group n)) (i + length b, t, c(n \<mapsto> b)))"
    by simp
  from star_shape[OF this] obtain u where u: "breaks u" "t = u @ s'" "j = i + length b + length u"
    by blast
  from breaks_split[OF Some[unfolded a], of u] u(1) have "breaks (b @ u)" by simp
  with u sp show ?thesis by (intro exI[of _ "b @ u"]) auto
qed

lemma interior_shape:
  assumes "(j, s', c') \<in> set (matcher (interior_ast d) (i, s, c))"
  shows "\<exists>u v. breaks u \<and> u \<noteq> [] \<and> breaks v \<and> v \<noteq> [] \<and> s = u @ d @ v @ s'"
proof -
  from assms obtain st1 where 1: "st1 \<in> set (matcher (Plus (nl_group 1)) (i, s, c))"
    and 2: "(j, s', c') \<in> set (matcher (mk_seq (map Chr d @ [Plus (nl_group 2)])) st1)"
    by (auto simp: interior_ast_def)
  obtain i1 s1 c1 where st1: "st1 = (i1, s1, c1)" by (cases st1)
  from plus_shape[OF 1[unfolded st1]] obtain u where u: "breaks u" "u \<noteq> []" "s = u @ s1" by blast
  from 2[unfolded st1 matcher_chars] have d: "take (length d) s1 = d"
    and 3: "(j, s', c') \<in> set (matcher (mk_seq [Plus (nl_group 2)]) (i1 + length d, drop (length d) s1, c1))"
    by (auto split: if_splits)
  from 3 have "(j, s', c') \<in> set (matcher (Plus (nl_group 2)) (i1 + length d, drop (length d) s1, c1))"
    by auto
  from plus_shape[OF this] obtain v where v: "breaks v" "v \<noteq> []" "drop (length d) s1 = v @ s'" by blast
  from d v(3) have "s1 = d @ v @ s'" by (metis append_take_drop_id)
  with u v show ?thesis by blast
qed

lemma start_shape:
  assumes "(j, s', c') \<in> set (matcher (start_ast d) (i, s, c))"
  shows "i = 0 \<and> (\<exists>u v. breaks u \<and> breaks v \<and> v \<noteq> [] \<and> s = u @ d @ v @ s')"
proof -
  from assms have i: "i = 0"
    and m: "(j, s', c') \<in> set (matcher (mk_seq (Star (nl_group 1) # map Chr d @ [Plus (nl_group 2)])) (i, s, c))"
    by (auto simp: start_ast_def split: if_splits)
  from m obtain st1 where 1: "st1 \<in> set (matcher (Star (nl_group 1)) (i, s, c))"
    and 2: "(j, s', c') \<in> set (matcher (mk_seq (map Chr d @ [Plus (nl_group 2)])) st1)"
    by auto
  obtain i1 s1 c1 where st1: "st1 = (i1, s1, c1)" by (cases st1)
  from star_shape[OF 1[unfolded st1]] obtain u where u: "breaks u" "s = u @ s1" by blast
  from 2[unfolded st1 matcher_chars] have d: "take (length d) s1 = d"
    and 3: "(j, s', c') \<in> set (matcher (mk_seq [Plus (nl_group 2)]) (i1 + length d, drop (length d) s1, c1))"
    by (auto split: if_splits)
  from 3 have "(j, s', c') \<in> set (matcher (Plus (nl_group 2)) (i1 + length d, drop (length d) s1, c1))"
    by auto
  from plus_shape[OF this] obtain v where v: "breaks v" "v \<noteq> []" "drop (length d) s1 = v @ s'" by blast
  from d v(3) have "s1 = d @ v @ s'" by (metis append_take_drop_id)
  with u v i show ?thesis by blast
qed

lemma end_shape:
  assumes "(j, s', c') \<in> set (matcher (end_ast d) (i, s, c))"
  shows "s' = [] \<and> (\<exists>u v. breaks u \<and> u \<noteq> [] \<and> breaks v \<and> s = u @ d @ v)"
proof -
  from assms obtain st1 where 1: "st1 \<in> set (matcher (Plus (nl_group 1)) (i, s, c))"
    and 2: "(j, s', c') \<in> set (matcher (mk_seq (map Chr d @ [Star (nl_group 2), Eol])) st1)"
    by (auto simp: end_ast_def)
  obtain i1 s1 c1 where st1: "st1 = (i1, s1, c1)" by (cases st1)
  from plus_shape[OF 1[unfolded st1]] obtain u where u: "breaks u" "u \<noteq> []" "s = u @ s1" by blast
  from 2[unfolded st1 matcher_chars] have d: "take (length d) s1 = d"
    and 3: "(j, s', c') \<in> set (matcher (mk_seq [Star (nl_group 2), Eol]) (i1 + length d, drop (length d) s1, c1))"
    by (auto split: if_splits)
  from 3 obtain st2 where 4: "st2 \<in> set (matcher (Star (nl_group 2)) (i1 + length d, drop (length d) s1, c1))"
    and 5: "(j, s', c') \<in> set (matcher (mk_seq [Eol]) st2)"
    by auto
  obtain i2 s2 c2 where st2: "st2 = (i2, s2, c2)" by (cases st2)
  from 5[unfolded st2] have e: "s2 = []" "s' = []" by (auto split: if_splits)
  from star_shape[OF 4[unfolded st2]] e obtain v where v: "breaks v" "drop (length d) s1 = v" by auto
  from d v(2) have "s1 = d @ v" by (metis append_take_drop_id)
  with u v e show ?thesis by blast
qed



text \<open>Where a delimiter between line breaks can lie in the wrapped text.\<close>

lemma after_only_LF:
  assumes eq: "P0 @ [LF] @ Y = A @ Z" and A: "A \<noteq> []" "last A = LF" and P0: "LF \<notin> set P0"
  shows "\<exists>A'. A = P0 @ [LF] @ A' \<and> Y = A' @ Z"
proof -
  from eq have "(P0 @ [LF]) @ Y = A @ Z" by simp
  then obtain us where us: "(P0 @ [LF] = A @ us \<and> us @ Y = Z) \<or> ((P0 @ [LF]) @ us = A \<and> Y = us @ Z)"
    unfolding append_eq_append_conv2 by blast
  then show ?thesis
  proof
    assume a: "P0 @ [LF] = A @ us \<and> us @ Y = Z"
    show ?thesis
    proof (cases us rule: rev_cases)
      case Nil
      with a show ?thesis by (intro exI[of _ "[]"]) simp
    next
      case (snoc us' x)
      with a have "P0 = A @ us'" by simp
      with A have "LF \<in> set P0" by (metis last_in_set Un_iff set_append)
      with P0 show ?thesis by simp
    qed
  next
    assume "(P0 @ [LF]) @ us = A \<and> Y = us @ Z"
    then show ?thesis by (intro exI[of _ us]) auto
  qed
qed

lemma before_fence:
  assumes eq: "t @ nl @ fence = A @ d @ B"
    and nl: "nl = [LF] \<or> nl = [CR, LF]"
    and B: "nl_split B \<noteq> None"
    and d: "d \<noteq> []" "last d \<noteq> CR"
  shows "\<exists>B'. t = A @ d @ B' \<and> (B' = [] \<or> hd B' = LF \<or> hd B' = CR)"
proof -
  from B have Bne: "B \<noteq> []" and hdB: "hd B = LF \<or> hd B = CR"
    by (auto simp: nl_split_def split: list.splits if_splits)
  from eq have "t @ (nl @ fence) = (A @ d) @ B" by simp
  then obtain us where us: "(t = (A @ d) @ us \<and> us @ nl @ fence = B) \<or> (t @ us = A @ d \<and> nl @ fence = us @ B)"
    unfolding append_eq_append_conv2 by blast
  then show ?thesis
  proof
    assume a: "t = (A @ d) @ us \<and> us @ nl @ fence = B"
    show ?thesis
    proof (cases us)
      case Nil with a show ?thesis by (intro exI[of _ "[]"]) simp
    next
      case (Cons x xs)
      with a hdB have "hd us = LF \<or> hd us = CR" by auto
      with a show ?thesis by (intro exI[of _ us]) simp
    qed
  next
    assume b: "t @ us = A @ d \<and> nl @ fence = us @ B"
    show ?thesis
    proof (cases "us = []")
      case True with b show ?thesis by (intro exI[of _ "[]"]) simp
    next
      case False
      from nl show ?thesis
      proof
        assume "nl = [LF]"
        with b False B show ?thesis
          by (auto simp: fence_def nl_split_def Cons_eq_append_conv split: if_splits)
      next
        assume "nl = [CR, LF]"
        with b False B have "us = [CR]"
          by (auto simp: fence_def nl_split_def Cons_eq_append_conv split: if_splits)
        with b have "t @ [CR] = A @ d" by simp
        with d have "last d = CR" by (metis last_appendR last_snoc)
        with d show ?thesis by simp
      qed
    qed
  qed
qed

lemma first_match_SomeD:
  assumes "first_match r 0 s \<noteq> None"
  obtains k j s' c' where "k \<le> length s" "(j, s', c') \<in> set (matcher r (k, drop k s, Map.empty))"
proof -
  from assms first_match_None[of r 0 s] obtain k where k: "k \<le> length s"
      "matcher r (k, drop k s, Map.empty) \<noteq> []" by auto
  then obtain st where "st \<in> set (matcher r (k, drop k s, Map.empty))" by (cases "matcher r (k, drop k s, Map.empty)") auto
  with k that show ?thesis by (cases st) blast
qed

lemma start_needs_own_line:
  assumes "first_match (start_ast d) 0 t \<noteq> None"
  shows "own_line d t"
proof -
  from assms obtain k j s' c' where k: "k \<le> length t"
      "(j, s', c') \<in> set (matcher (start_ast d) (k, drop k t, Map.empty))"
    by (rule first_match_SomeD)
  from start_shape[OF k(2)] obtain u v where
    uv: "k = 0" "breaks u" "breaks v" "v \<noteq> []" "drop k t = u @ d @ v @ s'" by blast
  then have t: "t = u @ d @ (v @ s')" by simp
  from uv have "u = [] \<or> last u = LF" "hd (v @ s') = LF \<or> hd (v @ s') = CR"
    using breaks_last[of u] breaks_hd[of v] by auto
  with t show ?thesis unfolding own_line_def by blast
qed

lemma end_needs_own_line:
  assumes m: "first_match (end_ast d) 0 (P0 @ [LF] @ t) \<noteq> None" and P0: "LF \<notin> set P0"
  shows "own_line d t"
proof -
  from m obtain k j s' c' where k: "k \<le> length (P0 @ [LF] @ t)"
      "(j, s', c') \<in> set (matcher (end_ast d) (k, drop k (P0 @ [LF] @ t), Map.empty))"
    by (rule first_match_SomeD)
  from end_shape[OF k(2)] obtain u v where
    uv: "breaks u" "u \<noteq> []" "breaks v" "drop k (P0 @ [LF] @ t) = u @ d @ v" by blast
  have "P0 @ [LF] @ t = take k (P0 @ [LF] @ t) @ drop k (P0 @ [LF] @ t)"
    by (simp only: append_take_drop_id)
  then have eq: "P0 @ [LF] @ t = (take k (P0 @ [LF] @ t) @ u) @ (d @ v)"
    by (simp only: uv(4) append_assoc)
  have "last (take k (P0 @ [LF] @ t) @ u) = LF" using uv breaks_last[of u] by simp
  from after_only_LF[OF eq _ this P0] uv(2) obtain A' where
    A': "take k (P0 @ [LF] @ t) @ u = P0 @ [LF] @ A'" "t = A' @ d @ v" by auto
  from A'(1) uv breaks_last[of u] have "A' = [] \<or> last A' = LF"
    by (metis append_assoc last_appendR last_snoc snoc_eq_iff_butlast append_Cons append_Nil)
  moreover from uv breaks_hd[of v] have "v = [] \<or> hd v = LF \<or> hd v = CR" by auto
  ultimately show ?thesis using A'(2) unfolding own_line_def by blast
qed

lemma interior_needs_own_line:
  assumes m: "first_match (interior_ast d) 0 (P0 @ [LF] @ t @ nl @ fence) \<noteq> None"
    and P0: "LF \<notin> set P0" and nl: "nl = [LF] \<or> nl = [CR, LF]"
    and d: "d \<noteq> []" "last d \<noteq> CR"
  shows "own_line d t"
proof -
  let ?W = "P0 @ [LF] @ t @ nl @ fence"
  from m obtain k j s' c' where k: "k \<le> length ?W"
      "(j, s', c') \<in> set (matcher (interior_ast d) (k, drop k ?W, Map.empty))"
    by (rule first_match_SomeD)
  from interior_shape[OF k(2)] obtain u v where
    uv: "breaks u" "u \<noteq> []" "breaks v" "v \<noteq> []" "drop k ?W = u @ d @ v @ s'" by blast
  have "?W = take k ?W @ drop k ?W"
    by (simp only: append_take_drop_id)
  then have eq: "P0 @ [LF] @ (t @ nl @ fence) = (take k ?W @ u) @ (d @ v @ s')"
    by (simp only: uv(5) append_assoc)
  have "last (take k ?W @ u) = LF" using uv breaks_last[of u] by simp
  from after_only_LF[OF eq _ this P0] uv(2) obtain A' where
    A': "take k ?W @ u = P0 @ [LF] @ A'" "t @ nl @ fence = A' @ d @ v @ s'" by auto
  from A'(1) uv breaks_last[of u] have A'_ok: "A' = [] \<or> last A' = LF"
    by (metis append_assoc last_appendR last_snoc snoc_eq_iff_butlast append_Cons append_Nil)
  from breaks_nl_split[OF uv(3,4)] have "nl_split (v @ s') \<noteq> None" .
  from before_fence[OF A'(2) nl this d] obtain B' where
    "t = A' @ d @ B'" "B' = [] \<or> hd B' = LF \<or> hd B' = CR" by blast
  with A'_ok show ?thesis unfolding own_line_def by blast
qed

lemma convert_eq:
  "convert nl lc ext contents =
     (let tag = js_or (lang lc) ext;
          startRegex = \<lparr>ast = start_ast (open_delim lc), ncaps = 2, global = False\<rparr>;
          endRegex = \<lparr>ast = end_ast (close_delim lc), ncaps = 2, global = False\<rparr>;
          closeRegex = \<lparr>ast = interior_ast (close_delim lc), ncaps = 2, global = True\<rparr>;
          openRegex = \<lparr>ast = interior_ast (open_delim lc), ncaps = 2, global = True\<rparr>;
          contents1 = (if RegExp_test startRegex contents
                       then replace_first startRegex [] contents
                       else fence @ tag @ nl @ contents);
          contents2 = (if RegExp_test endRegex contents1
                       then replace_first endRegex [] contents1
                       else contents1 @ nl @ fence)
      in Inr (replace_all openRegex (nl @ fence @ nl @ nl)
               (replace_all closeRegex (nl @ nl @ fence @ tag @ nl) contents2)))"
  by (simp add: convert_def RegExp_start RegExp_end RegExp_interior start_ast_def end_ast_def
      interior_ast_def String_replace_def Let_def)

lemma replace_all_no_match:
  "first_match (ast re) 0 s = None \<Longrightarrow> replace_all re repl s = s"
  by (simp add: replace_all_def replace_loop_no_match)

lemma convert_verbatim:
  assumes nl: "nl = [LF] \<or> nl = [CR, LF]"
    and tag: "LF \<notin> set (js_or (lang lc) ext)"
    and od: "open_delim lc \<noteq> []" "last (open_delim lc) \<noteq> CR"
    and cd: "close_delim lc \<noteq> []" "last (close_delim lc) \<noteq> CR"
    and no: "\<not> own_line (open_delim lc) contents" "\<not> own_line (close_delim lc) contents"
  shows "convert nl lc ext contents = Inr (fence @ js_or (lang lc) ext @ nl @ contents @ nl @ fence)"
proof -
  let ?tag = "js_or (lang lc) ext"
  obtain P0 where P0: "fence @ ?tag @ nl = P0 @ [LF]" "LF \<notin> set P0"
  proof (cases "nl = [LF]")
    case True
    with tag that[of "fence @ ?tag"] show ?thesis by (auto simp: fence_def)
  next
    case False
    with nl have "nl = [CR, LF]" by simp
    with tag that[of "fence @ ?tag @ [CR]"] show ?thesis by (auto simp: fence_def)
  qed
  have s: "\<not> RegExp_test \<lparr>ast = start_ast (open_delim lc), ncaps = 2, global = False\<rparr> contents"
    using start_needs_own_line[of "open_delim lc" contents] no(1) by (auto simp: RegExp_test_def)
  have W1: "fence @ ?tag @ nl @ contents = P0 @ [LF] @ contents"
    using P0(1) by simp
  have e: "\<not> RegExp_test \<lparr>ast = end_ast (close_delim lc), ncaps = 2, global = False\<rparr>
               (fence @ ?tag @ nl @ contents)"
    unfolding W1 using end_needs_own_line[of "close_delim lc" P0 contents, OF _ P0(2)] no(2)
    by (auto simp: RegExp_test_def)
  have W: "fence @ ?tag @ nl @ contents @ nl @ fence = P0 @ [LF] @ contents @ nl @ fence"
    using P0(1) by simp
  have c: "first_match (interior_ast (close_delim lc)) 0 (fence @ ?tag @ nl @ contents @ nl @ fence) = None"
    unfolding W using interior_needs_own_line[of "close_delim lc" P0 contents nl, OF _ P0(2) nl cd] no(2)
    by blast
  have ob: "first_match (interior_ast (open_delim lc)) 0 (fence @ ?tag @ nl @ contents @ nl @ fence) = None"
    unfolding W using interior_needs_own_line[of "open_delim lc" P0 contents nl, OF _ P0(2) nl od] no(1)
    by blast
  show ?thesis
    unfolding convert_eq Let_def using s e by (simp add: replace_all_no_match c ob)
qed

lemma matcher_Star_nl_Some:
  "nl_split s = Some (b, t) \<Longrightarrow>
   matcher (Star (nl_group n)) (i, s, c)
     = matcher (Star (nl_group n)) (i + length b, t, c(n \<mapsto> b)) @ [(i, s, c)]"
  by (subst matcher_Star_nl) simp

lemma matcher_Star_nl_None:
  "nl_split s = None \<Longrightarrow> matcher (Star (nl_group n)) (i, s, c) = [(i, s, c)]"
  by (subst matcher_Star_nl) simp











subsection \<open>The file system and the walker\<close>

lemma lookup_put [simp]: "lookup (put p e w) q = (if q = p then Some e else lookup w q)"
  by (simp add: lookup_def put_def update_conv')

lemma lookup_stdout [simp]: "lookup (w\<lparr>stdout := x\<rparr>) q = lookup w q"
  by (simp add: lookup_def)

lemma mkdirs_frame:
  "mkdirs w pre ns = Inr w' \<Longrightarrow>
     lookup w' q = lookup w q
     \<or> (lookup w q = None \<and> lookup w' q = Some Dir \<and> (\<exists>k < length ns. q = pre @ take (Suc k) ns))"
proof (induction ns arbitrary: w pre)
  case Nil
  then show ?case by simp
next
  case (Cons n ns)
  show ?case
  proof (cases "lookup w (pre @ [n])")
    case None
    with Cons.prems have "mkdirs (put (pre @ [n]) Dir w) (pre @ [n]) ns = Inr w'" by simp
    from Cons.IH[OF this] None show ?thesis
      by (auto split: if_splits)
  next
    case (Some e)
    with Cons.prems obtain "e = Dir" "mkdirs w (pre @ [n]) ns = Inr w'"
      by (cases e) (auto split: if_splits)
    from Cons.IH[OF this(2)] show ?thesis by auto
  qed
qed

lemma mkdir_keeps: "mkdir w d = Inr w1 \<Longrightarrow> lookup w p = Some e \<Longrightarrow> lookup w1 p = Some e"
  using mkdirs_frame[of w "[]" d w1 p] by (auto simp: mkdir_def split: if_splits)

lemma writeFile_lookup:
  "writeFile w p c = Inr w' \<Longrightarrow> lookup w' q = (if q = p then Some (File c) else lookup w q)"
  by (auto simp: writeFile_def split: option.splits entry.splits if_splits)

lemma writeFile_not_Dir: "writeFile w p c = Inr w' \<Longrightarrow> lookup w p \<noteq> Some Dir"
  by (auto simp: writeFile_def split: option.splits entry.splits if_splits)

lemma path_parse_md: "path_parse out = (dir, name, ext) \<Longrightarrow> path_format dir name ''.md'' = md_path out"
  by (simp add: md_path_def)

lemma path_parse_dir: "path_parse out = (dir, name, ext) \<Longrightarrow> dir = butlast out"
  by (auto simp: path_parse_def split: if_splits)

lemma touched_refl: "touched inp out w w q"
  by (simp add: touched_def)

lemma frame_refl: "frame inp out w w"
  by (simp add: frame_def touched_refl)

lemma frame_files:
  assumes "frame inp out w w'" "lookup w p = Some (File c)"
  shows "\<exists>c'. lookup w' p = Some (File c')"
  using assms unfolding frame_def touched_def by (metis option.distinct(1))

lemma frame_trans:
  assumes a: "frame inp out w w1" and b: "frame inp out w1 w2"
  shows "frame inp out w w2"
  unfolding frame_def
proof
  fix q
  define A where "A = (\<lambda>v. \<exists>rel r c. r \<noteq> [] \<and> q @ r = out @ rel \<and> lookup v (inp @ rel) = Some (File c))"
  define B where "B = (\<lambda>v. \<exists>rel c m. out @ rel \<noteq> [] \<and> q = md_path (out @ rel)
      \<and> lookup v q = Some (File m) \<and> lookup v (inp @ rel) = Some (File c))"
  have keep: "\<And>p c. lookup w1 p = Some (File c) \<Longrightarrow> \<exists>c'. lookup w2 p = Some (File c')"
    using frame_files[OF b] by blast
  have A12: "A w1 \<Longrightarrow> A w2" unfolding A_def using keep by blast
  have B12: "B w1 \<Longrightarrow> lookup w2 q = lookup w1 q \<Longrightarrow> B w2" unfolding B_def using keep by metis
  have Bf: "\<And>v. B v \<Longrightarrow> \<exists>m. lookup v q = Some (File m)" unfolding B_def by blast
  from a have a': "lookup w1 q = lookup w q \<or> (lookup w q = None \<and> lookup w1 q = Some Dir \<and> A w1)
      \<or> (lookup w q \<noteq> Some Dir \<and> B w1)"
    unfolding frame_def touched_def A_def B_def by blast
  from b have b': "lookup w2 q = lookup w1 q \<or> (lookup w1 q = None \<and> lookup w2 q = Some Dir \<and> A w2)
      \<or> (lookup w1 q \<noteq> Some Dir \<and> B w2)"
    unfolding frame_def touched_def A_def B_def by blast
  from a' b' have "lookup w2 q = lookup w q \<or> (lookup w q = None \<and> lookup w2 q = Some Dir \<and> A w2)
      \<or> (lookup w q \<noteq> Some Dir \<and> B w2)"
  proof (elim disjE conjE)
    assume "lookup w q = None" "lookup w1 q = Some Dir" "A w1" "lookup w2 q = lookup w1 q"
    with A12 show ?thesis by simp
  next
    assume "lookup w q \<noteq> Some Dir" "B w1" "lookup w2 q = lookup w1 q"
    with B12 show ?thesis by simp
  next
    assume "lookup w q \<noteq> Some Dir" "B w1" "lookup w1 q = None"
    with Bf[of w1] show ?thesis by auto
  qed auto
  then show "touched inp out w w2 q" unfolding touched_def A_def B_def by blast
qed

lemma mirrors_mono:
  assumes "\<And>p c. lookup w p = Some (File c) \<Longrightarrow> \<exists>c'. lookup w' p = Some (File c')"
  shows "mirrors inp out w t \<Longrightarrow> mirrors inp out w' t"
  by (induction t) (auto dest: assms)

lemma readFile_Inr: "readFile w p = Inr c \<longleftrightarrow> lookup w p = Some (File c)"
  by (auto simp: readFile_def split: option.splits entry.splits)

lemma mkdir_read:
  assumes "mkdir w d = Inr w1" "readFile w1 p = Inr c"
  shows "lookup w p = Some (File c)"
proof -
  from assms(2) have f: "lookup w1 p = Some (File c)" by (simp add: readFile_Inr)
  from assms(1) have "mkdirs w [] d = Inr w1" by (auto simp: mkdir_def split: if_splits)
  from mkdirs_frame[OF this, of p] f show ?thesis by auto
qed

lemma literateToMdFile_success:
  assumes run: "literateToMdFile env w inp out = (w', Inr ())"
    and pp: "path_parse out = (dir, name, ext)"
    and cfg: "config_get (config env) (drop 1 ext) \<noteq> Undefined"
  shows "\<exists>lc c md. config (env) (drop 1 ext) = Some lc \<and> lookup w inp = Some (File c)
            \<and> convert (eol env) lc (drop 1 ext) c = Inr md
            \<and> lookup w' (md_path out) = Some (File md)"
proof -
  have f: "path_format dir name ''.md'' = md_path out" by (rule path_parse_md[OF pp])
  from run cfg obtain lc w1 c md w2 where
    own: "config_get (config env) (drop 1 ext) = Own lc"
    and mk: "mkdir w dir = Inr w1" and rd: "readFile w1 inp = Inr c"
    and cv: "convert (eol env) lc (drop 1 ext) c = Inr md"
    and wr: "writeFile w1 (md_path out) md = Inr w2"
    and w': "w' = w2\<lparr>stdout := stdout w2 @ [(inp, md_path out)]\<rparr>"
    unfolding literateToMdFile_def pp
    by (auto simp: f split: property.splits sum.splits)
  from own have "config env (drop 1 ext) = Some lc"
    by (auto simp: config_get_def split: option.splits if_splits)
  moreover from mkdir_read[OF mk rd] have "lookup w inp = Some (File c)" .
  moreover from writeFile_lookup[OF wr, of "md_path out"] w'
  have "lookup w' (md_path out) = Some (File md)" by simp
  ultimately show ?thesis using cv by blast
qed

lemma literateToMdFile_skip:
  assumes "path_parse out = (dir, name, ext)" "config_get (config env) (drop 1 ext) = Undefined"
  shows "literateToMdFile env w inp out = (w, Inr ())"
  using assms by (simp add: literateToMdFile_def)

lemma mkdir_frame:
  assumes mk: "mkdir w (butlast (out @ rel)) = Inr w1" and f: "lookup w (inp @ rel) = Some (File c)"
  shows "frame inp out w w1"
  unfolding frame_def
proof
  fix q
  from mk have ne: "butlast (out @ rel) \<noteq> []" and mks: "mkdirs w [] (butlast (out @ rel)) = Inr w1"
    by (auto simp: mkdir_def split: if_splits)
  from mkdir_keeps[OF mk f] have f1: "lookup w1 (inp @ rel) = Some (File c)" .
  from mkdirs_frame[OF mks, of q] consider "lookup w1 q = lookup w q"
    | k where "lookup w q = None" "lookup w1 q = Some Dir" "k < length (butlast (out @ rel))"
        "q = take (Suc k) (butlast (out @ rel))"
    by auto
  then show "touched inp out w w1 q"
  proof cases
    case 1 then show ?thesis by (simp add: touched_def)
  next
    case 2
    define P where "P = out @ rel"
    from 2 have q: "q = take (Suc k) P" "Suc k < length P"
      unfolding P_def by (auto simp: take_butlast simp del: take_append)
    then have "q @ drop (Suc k) P = P" "drop (Suc k) P \<noteq> []" by auto
    then have "q @ drop (Suc k) P = out @ rel" "drop (Suc k) P \<noteq> []" by (simp_all add: P_def)
    with 2 f1 show ?thesis unfolding touched_def by blast
  qed
qed

lemma writeFile_frame:
  assumes wr: "writeFile w (md_path (out @ rel)) m = Inr w2" and f: "lookup w (inp @ rel) = Some (File c)"
    and ne: "out @ rel \<noteq> []"
  shows "frame inp out w (w2\<lparr>stdout := x\<rparr>)"
  unfolding frame_def
proof
  fix q
  have f2: "\<exists>c'. lookup w2 (inp @ rel) = Some (File c')"
    using writeFile_lookup[OF wr, of "inp @ rel"] f by auto
  show "touched inp out w (w2\<lparr>stdout := x\<rparr>) q"
  proof (cases "q = md_path (out @ rel)")
    case True
    with writeFile_lookup[OF wr, of q] have "lookup w2 q = Some (File m)" by simp
    with True ne f2 writeFile_not_Dir[OF wr] show ?thesis unfolding touched_def by auto
  next
    case False
    with writeFile_lookup[OF wr, of q] show ?thesis by (simp add: touched_def)
  qed
qed

lemma mirrors_frame: "frame inp out w w' \<Longrightarrow> mirrors inp out w t \<Longrightarrow> mirrors inp out w' t"
  using frame_files by (rule mirrors_mono)

lemma mirrors_spawn:
  "(\<forall>t\<in>set ts. mirrors inp out w t) \<Longrightarrow> mirrors inp out w (spawn ts)"
  by (simp add: spawn_def)

lemma resume_frame:
  assumes "resume env w t = (w', t')" "mirrors inp out w t"
  shows "frame inp out w w' \<and> mirrors inp out w' t'"
proof (cases t)
  case (Call ip op)
  with assms show ?thesis
    by (auto simp: frame_refl enter_def split: option.splits entry.splits prod.splits property.splits)
next
  case (Listing ip op)
  with assms obtain rel where rel: "ip = inp @ rel" "op = out @ rel" by auto
  have "\<And>i. path_join ip i = inp @ (rel @ [i]) \<and> path_join op i = out @ (rel @ [i])"
    by (simp add: path_join_def rel)
  then have "\<forall>t\<in>set (map (\<lambda>i. Call (path_join ip i) (path_join op i)) (readdir w ip)). mirrors inp out w t"
    by auto
  from mirrors_spawn[OF this] Listing assms(1) show ?thesis
    by (auto simp: frame_refl split: option.splits entry.splits)
next
  case (Making ip op)
  with assms obtain rel c where rel: "ip = inp @ rel" "op = out @ rel" and f: "lookup w ip = Some (File c)"
    by auto
  obtain dir name ext where pp: "path_parse op = (dir, name, ext)" by (cases "path_parse op") auto
  have d: "dir = butlast op" by (rule path_parse_dir[OF pp])
  show ?thesis
  proof (cases "mkdir w dir")
    case (Inl e)
    with Making assms(1) pp show ?thesis by (auto simp: frame_refl)
  next
    case (Inr w1)
    with Making assms(1) pp have w': "w' = w1" "t' = Reading ip op" by auto
    from Inr d rel have mk: "mkdir w (butlast (out @ rel)) = Inr w1" by simp
    from mkdir_frame[OF mk] f rel have fr: "frame inp out w w1" by simp
    from mk have "out @ rel \<noteq> []" by (auto simp: mkdir_def split: if_splits)
    with mkdir_keeps[OF Inr f] rel w' fr show ?thesis by auto
  qed
next
  case (Reading ip op)
  with assms show ?thesis
    by (auto simp: frame_refl split: prod.splits sum.splits property.splits)
next
  case (Writing ip op m)
  with assms obtain rel c where rel: "ip = inp @ rel" "op = out @ rel" and f: "lookup w ip = Some (File c)"
    and ne: "op \<noteq> []" by auto
  obtain dir name ext where pp: "path_parse op = (dir, name, ext)" by (cases "path_parse op") auto
  have pf: "path_format dir name ''.md'' = md_path op" by (rule path_parse_md[OF pp])
  show ?thesis
  proof (cases "writeFile w (md_path op) m")
    case (Inl e)
    with Writing assms(1) pp pf show ?thesis by (auto simp: frame_refl)
  next
    case (Inr w2)
    with Writing assms(1) pp pf have w': "w' = w2\<lparr>stdout := stdout w2 @ [(ip, md_path op)]\<rparr>"
      "t' = Settled (Inr ())" by auto
    from Inr rel have "writeFile w (md_path (out @ rel)) m = Inr w2" by simp
    from writeFile_frame[OF this] f rel ne w' show ?thesis by simp
  qed
next
  case (Waiting ts)
  with assms show ?thesis by (auto simp: frame_refl)
next
  case (Rejected e ts)
  with assms show ?thesis by (auto simp: frame_refl)
next
  case (Settled r)
  with assms show ?thesis by (auto simp: frame_refl)
qed

lemma mirrors_Promise_all:
  "(\<forall>t\<in>set ts. mirrors inp out w t) \<Longrightarrow> mirrors inp out w (Promise_all ts i)"
  by (auto simp: Promise_all_def split: option.splits sum.splits)

lemma mirrors_update:
  assumes "\<forall>t\<in>set ts. mirrors inp out w t" "mirrors inp out w t'"
  shows "\<forall>t\<in>set (ts[i := t']). mirrors inp out w t"
  using assms by (metis insert_iff set_update_subset_insert subsetD)

lemma advance_frame:
  "advance env a w t = Some (w', t') \<Longrightarrow> mirrors inp out w t \<Longrightarrow>
     frame inp out w w' \<and> mirrors inp out w' t'"
proof (induction env a w t arbitrary: t' rule: advance.induct)
  case (5 env i a w ts)
  from 5(2) obtain t1 where i: "i < length ts" and adv: "advance env a w (ts ! i) = Some (w', t1)"
    and t': "t' = Promise_all (ts[i := t1]) i"
    by (auto split: if_splits)
  from 5(3) i have "mirrors inp out w (ts ! i)" by simp
  from 5(1)[OF i adv this] have fr: "frame inp out w w'" and m1: "mirrors inp out w' t1" by auto
  from 5(3) have "\<forall>t\<in>set ts. mirrors inp out w' t" using mirrors_frame[OF fr] by simp
  from mirrors_update[OF this m1] have "\<forall>t\<in>set (ts[i := t1]). mirrors inp out w' t" .
  from mirrors_Promise_all[OF this] fr t' show ?case by simp
next
  case (6 env i a w e ts)
  from 6(2) obtain t1 where i: "i < length ts" and adv: "advance env a w (ts ! i) = Some (w', t1)"
    and t': "t' = Rejected e (ts[i := t1])"
    by (auto split: if_splits)
  from 6(3) i have "mirrors inp out w (ts ! i)" by simp
  from 6(1)[OF i adv this] have fr: "frame inp out w w'" and m1: "mirrors inp out w' t1" by auto
  from 6(3) have "\<forall>t\<in>set ts. mirrors inp out w' t" using mirrors_frame[OF fr] by simp
  from mirrors_update[OF this m1] fr t' show ?case by simp
qed (use resume_frame in \<open>auto simp del: resume.simps\<close>)

lemma exec_frame:
  "exec env sched (w, t) = Some (w', t') \<Longrightarrow> mirrors inp out w t \<Longrightarrow>
     frame inp out w w' \<and> mirrors inp out w' t'"
proof (induction sched arbitrary: w t)
  case Nil
  then show ?case by (simp add: frame_refl)
next
  case (Cons a sched)
  from Cons.prems(1) obtain w1 t1 where adv: "advance env a w t = Some (w1, t1)"
    and ex: "exec env sched (w1, t1) = Some (w', t')"
    by (auto split: option.splits)
  from advance_frame[OF adv Cons.prems(2)] have 1: "frame inp out w w1" "mirrors inp out w1 t1" by auto
  from Cons.IH[OF ex 1(2)] have 2: "frame inp out w1 w'" "mirrors inp out w' t'" by auto
  from frame_trans[OF 1(1) 2(1)] 2(2) show ?case by simp
qed

lemma walk_frame:
  assumes "literateToMd env sched w inp out = Some (w', t')"
  shows "touched inp out w w' q"
proof -
  have "mirrors inp out w (Call inp out)" by simp
  from exec_frame[OF assms[unfolded literateToMd_def] this] show ?thesis by (simp add: frame_def)
qed

text \<open>How a walk settles.\<close>

lemma outcome_enter: "outcome (enter env ip op) \<noteq> Some (Inl e)"
  by (auto simp: enter_def split: prod.splits property.splits)

lemma outcome_spawn: "outcome (spawn ts) \<noteq> Some (Inl e)"
  by (simp add: spawn_def)

lemma outcome_resume:
  "outcome (snd (resume env w t)) = Some (Inl e) \<Longrightarrow> outcome t = None
     \<Longrightarrow> snd (resume env w t) = Settled (Inl e)"
  by (cases t)
     (auto simp: outcome_enter outcome_spawn
           split: option.splits entry.splits prod.splits sum.splits property.splits)

lemma well_formed_enter: "well_formed (enter env ip op)"
  by (auto simp: enter_def split: prod.splits property.splits)

lemma well_formed_spawn_Call: "well_formed (spawn (map (\<lambda>i. Call (f i) (g i)) ns))"
  by (cases ns) (auto simp: spawn_def)

lemma well_formed_resume: "well_formed t \<Longrightarrow> well_formed (snd (resume env w t))"
  by (cases t)
     (auto simp: well_formed_enter well_formed_spawn_Call simp del: well_formed.simps(1)
           split: option.splits entry.splits prod.splits sum.splits property.splits)

lemma outcome_Promise_all:
  "i < length ts \<Longrightarrow> outcome (Promise_all ts i) = Some (Inl e) \<longleftrightarrow> outcome (ts ! i) = Some (Inl e)"
  by (auto simp: Promise_all_def split: option.splits sum.splits)

lemma advance_unsettled: "advance env a w t = Some c \<Longrightarrow> outcome t \<noteq> Some (Inr u)"
  by (cases "(env, a, w, t)" rule: advance.cases) auto

lemma advance_Nil:
  "advance env [] w t = Some c \<Longrightarrow> c = resume env w t \<and> outcome t = None"
  by (cases t) auto

lemma advance_Cons:
  assumes "advance env (i # a) w t = Some (w', t')"
  obtains ts t1 where "t = Waiting ts" "i < length ts" "advance env a w (ts ! i) = Some (w', t1)"
      "t' = Promise_all (ts[i := t1]) i"
  | e ts t1 where "t = Rejected e ts" "i < length ts" "advance env a w (ts ! i) = Some (w', t1)"
      "t' = Rejected e (ts[i := t1])"
  using assms by (cases t) (auto split: if_splits)

lemma advance_well_formed:
  "advance env a w t = Some (w', t') \<Longrightarrow> well_formed t \<Longrightarrow> well_formed t'"
proof (induction a arbitrary: t t')
  case Nil
  from advance_Nil[OF Nil(1)] well_formed_resume[OF Nil(2), of env w] show ?case
    by (metis snd_conv)
next
  case (Cons i a)
  from Cons.prems(1) show ?case
  proof (cases rule: advance_Cons)
    case (1 ts t1)
    from Cons.prems(2) 1 have wi: "well_formed (ts ! i)" by simp
    from Cons.IH[OF 1(3) wi] have w1: "well_formed t1" .
    from Cons.prems(2) 1 have all: "\<forall>t\<in>set ts. well_formed t \<and> (\<forall>e. outcome t \<noteq> Some (Inl e))" by simp
    have wf': "\<forall>t\<in>set (ts[i := t1]). well_formed t"
      using all w1 by (metis insert_iff set_update_subset_insert subsetD)
    have len: "(ts[i := t1]) ! i = t1" "ts[i := t1] \<noteq> []" using 1(2) by auto
    show ?thesis
    proof (cases "\<exists>e. outcome t1 = Some (Inl e)")
      case True
      then obtain e where "outcome t1 = Some (Inl e)" by blast
      with 1(4) len wf' show ?thesis by (simp add: Promise_all_def)
    next
      case False
      have "\<forall>t\<in>set (ts[i := t1]). well_formed t \<and> (\<forall>e. outcome t \<noteq> Some (Inl e))"
        using all w1 False by (metis insert_iff set_update_subset_insert subsetD)
      with 1(4) len False show ?thesis
        by (auto simp: Promise_all_def split: option.splits sum.splits)
    qed
  next
    case (2 e ts t1)
    from Cons.prems(2) 2 have "well_formed (ts ! i)" by simp
    from Cons.IH[OF 2(3) this] have "well_formed t1" .
    with Cons.prems(2) 2(1) have "\<forall>t\<in>set (ts[i := t1]). well_formed t"
      by (metis insert_iff set_update_subset_insert subsetD well_formed.simps(2))
    with 2(4) show ?thesis by simp
  qed
qed

lemma exec_well_formed:
  "exec env sched (w, t) = Some (w', t') \<Longrightarrow> well_formed t \<Longrightarrow> well_formed t'"
proof (induction sched arbitrary: w t)
  case Nil
  then show ?case by simp
next
  case (Cons a sched)
  from Cons.prems(1) obtain w1 t1 where adv: "advance env a w t = Some (w1, t1)"
    and ex: "exec env sched (w1, t1) = Some (w', t')"
    by (auto split: option.splits)
  from Cons.IH[OF ex advance_well_formed[OF adv Cons.prems(2)]] show ?case .
qed

lemma walk_well_formed: "literateToMd env sched w inp out = Some (w', t') \<Longrightarrow> well_formed t'"
  unfolding literateToMd_def by (erule exec_well_formed) simp

lemma advance_settled:
  "advance env a w t = Some (w', t') \<Longrightarrow> outcome t = Some r \<Longrightarrow> outcome t' = Some r"
proof (cases a)
  case Nil
  assume "advance env a w t = Some (w', t')" "outcome t = Some r"
  with Nil advance_Nil[of env w t "(w', t')"] show ?thesis by simp
next
  case (Cons i a')
  assume "advance env a w t = Some (w', t')" "outcome t = Some r"
  with Cons show ?thesis by (cases t) (auto split: if_splits)
qed

lemma unsettled_child:
  assumes "advance env a w t = Some c" "\<forall>e. outcome t \<noteq> Some (Inl e)"
  shows "outcome t = None"
proof (cases "outcome t")
  case (Some r)
  with assms(2) have "r = Inr ()" by (cases r) auto
  with Some advance_unsettled[OF assms(1)] show ?thesis by simp
qed simp

lemma advance_rejects:
  "advance env a w t = Some (w', t') \<Longrightarrow> well_formed t \<Longrightarrow> outcome t = None \<Longrightarrow>
     outcome t' = Some (Inl e) \<longleftrightarrow> (\<exists>l. task_at a t = Some l \<and> snd (resume env w l) = Settled (Inl e))"
proof (induction a arbitrary: t t')
  case Nil
  from advance_Nil[OF Nil(1)] have t': "t' = snd (resume env w t)" by (metis snd_conv)
  show ?case
  proof
    assume "outcome t' = Some (Inl e)"
    with t' outcome_resume[OF _ Nil(3), of env w e] show "\<exists>l. task_at [] t = Some l \<and> snd (resume env w l) = Settled (Inl e)"
      by simp
  next
    assume "\<exists>l. task_at [] t = Some l \<and> snd (resume env w l) = Settled (Inl e)"
    with t' show "outcome t' = Some (Inl e)" by simp
  qed
next
  case (Cons i a)
  from Cons.prems(1) show ?case
  proof (cases rule: advance_Cons)
    case (1 ts t1)
    from Cons.prems(2) 1 have wi: "well_formed (ts ! i)" and "\<forall>e. outcome (ts ! i) \<noteq> Some (Inl e)" by auto
    from unsettled_child[OF 1(3) this(2)] have none: "outcome (ts ! i) = None" .
    have "outcome t' = Some (Inl e) \<longleftrightarrow> outcome t1 = Some (Inl e)"
      using outcome_Promise_all[of i "ts[i := t1]" e] 1 by simp
    with Cons.IH[OF 1(3) wi none] 1 show ?thesis by simp
  next
    case (2 e' ts t1)
    with Cons.prems(3) show ?thesis by simp
  qed
qed

lemma fulfilled_Settled: "outcome t = Some (Inr u) \<Longrightarrow> t = Settled (Inr ())"
  by (cases t) auto

lemma pending_idle:
  "well_formed t \<Longrightarrow> pending t = 0 \<Longrightarrow> outcome t \<noteq> None"
proof (induction t)
  case (Waiting ts)
  have "\<forall>t\<in>set ts. outcome t = Some (Inr ())"
  proof
    fix t assume t: "t \<in> set ts"
    with Waiting.prems have "well_formed t" "pending t = 0" "\<forall>e. outcome t \<noteq> Some (Inl e)" by auto
    with Waiting.IH[OF t] show "outcome t = Some (Inr ())"
      by (metis (full_types) not_Some_eq old.sum.exhaust old.unit.exhaust)
  qed
  with Waiting.prems show ?case by (simp add: list_all_iff)
qed auto

lemma pending_fulfilled: "outcome t = Some (Inr u) \<Longrightarrow> pending t = 0"
  by (cases t) auto

lemma sum_pending_fulfilled:
  "\<forall>t\<in>set ts. outcome t = Some (Inr ()) \<Longrightarrow> sum_list (map pending ts) = 0"
  by (induction ts) (auto simp: pending_fulfilled)

lemma advance_fulfils:
  "advance env a w t = Some (w', t') \<Longrightarrow> well_formed t \<Longrightarrow> outcome t = None \<Longrightarrow>
     outcome t' = Some (Inr ()) \<Longrightarrow> pending t = 1"
proof (induction a arbitrary: t t')
  case Nil
  from Nil(1) Nil(3) show ?case by (cases t) auto
next
  case (Cons i a)
  from Cons.prems(1) show ?case
  proof (cases rule: advance_Cons)
    case (1 ts t1)
    from Cons.prems(2) 1 have wi: "well_formed (ts ! i)" and "\<forall>e. outcome (ts ! i) \<noteq> Some (Inl e)" by auto
    from unsettled_child[OF 1(3) this(2)] have none: "outcome (ts ! i) = None" .
    from Cons.prems(4) 1 have all: "\<forall>t\<in>set (ts[i := t1]). outcome t = Some (Inr ())"
      by (auto simp: Promise_all_def list_all_iff split: option.splits sum.splits if_splits)
    with 1(2) have "outcome t1 = Some (Inr ())" by (metis nth_list_update_eq nth_mem length_list_update)
    from Cons.IH[OF 1(3) wi none this] have one: "pending (ts ! i) = 1" .
    have "set (take i ts) \<subseteq> set (ts[i := t1])"
      by (metis set_take_subset take_update_cancel order_refl)
    with all have a: "sum_list (map pending (take i ts)) = 0" by (intro sum_pending_fulfilled) auto
    have "set (drop (Suc i) ts) \<subseteq> set (ts[i := t1])"
      by (metis set_drop_subset drop_update_cancel lessI)
    with all have b: "sum_list (map pending (drop (Suc i) ts)) = 0" by (intro sum_pending_fulfilled) auto
    have "ts = take i ts @ ts ! i # drop (Suc i) ts" using 1(2) by (rule id_take_nth_drop)
    then have "sum_list (map pending ts)
               = sum_list (map pending (take i ts)) + pending (ts ! i) + sum_list (map pending (drop (Suc i) ts))"
      by (metis append_Cons append_Nil map_append sum_list.Cons sum_list.append list.simps(9) add.assoc)
    with a b one 1(1) show ?thesis by simp
  next
    case (2 e' ts t1)
    with Cons.prems(3) show ?thesis by simp
  qed
qed

text \<open>Alone, the moves of one file are \<open>literateToMdFile\<close>.\<close>

lemma literateToMdFile_moves:
  "literateToMdFile env w ip op =
     (case enter env ip op of
        Making i' o' \<Rightarrow>
          (case resume env w (Making ip op) of (w1, t1) \<Rightarrow>
           case resume env w1 t1 of (w2, t2) \<Rightarrow>
           case resume env w2 t2 of (w3, t3) \<Rightarrow>
             (w3, case t3 of Settled r \<Rightarrow> r | _ \<Rightarrow> Inr ()))
      | Settled r \<Rightarrow> (w, r)
      | _ \<Rightarrow> (w, Inr ()))"
  by (auto simp: literateToMdFile_def enter_def
           split: prod.splits property.splits sum.splits)

subsection \<open>Sources made of prose blocks and code blocks\<close>

text \<open>The first result of each pattern on a text of the expected shape.\<close>

subsection \<open>The match the engine reports\<close>

lemma concat_map_mk_seq_Nil [simp]: "concat (map (matcher (mk_seq [])) xs) = xs"
  by (induction xs) simp_all










text \<open>Delimiters on a line of their own, and texts that hold none.\<close>

lemma plain_hd: "plain d \<Longrightarrow> hd d \<noteq> LF \<and> hd d \<noteq> CR"
  by (cases d) (auto simp: plain_def)







































subsection \<open>The patterns match literally\<close>

lemma last_break_token: "b = [LF] \<or> b = [CR, LF] \<Longrightarrow> last_break b = b"
  by (auto simp: last_break_def)

lemma last_break_append:
  assumes b: "b = [LF] \<or> b = [CR, LF]" and u: "breaks u" "u \<noteq> []"
  shows "last_break (b @ u) = last_break u"
proof -
  from breaks_last[OF u] have l: "last u = LF" .
  show ?thesis
  proof (cases "butlast u" rule: rev_cases)
    case Nil
    with u(2) l have "u = [LF]" by (metis append_butlast_last_id append_Nil)
    with b show ?thesis by (auto simp: last_break_def)
  next
    case (snoc ys y)
    with u(2) l have "u = ys @ [y, LF]" by (metis append_butlast_last_id append_assoc append_Cons append_Nil)
    then show ?thesis by (simp add: last_break_def)
  qed
qed

lemma cap_step:
  assumes "b = [LF] \<or> b = [CR, LF]" "breaks u"
  shows "(if u = [] then c(n \<mapsto> b) else (c(n \<mapsto> b))(n \<mapsto> last_break u)) = c(n \<mapsto> last_break (b @ u))"
proof (cases "u = []")
  case True
  with last_break_token[OF assms(1)] show ?thesis by simp
next
  case False
  with last_break_append[OF assms False] show ?thesis by simp
qed

lemma runs_step:
  assumes b: "b = [LF] \<or> b = [CR, LF]"
  shows "map (\<lambda>(u, r). (i + length b + length u, r,
                if u = [] then c(n \<mapsto> b) else (c(n \<mapsto> b))(n \<mapsto> last_break u))) (runs t)
      = map (\<lambda>(u, r). (i + length u, r, c(n \<mapsto> last_break u)))
          (map (\<lambda>(u, r). (b @ u, r)) (runs t))"
  unfolding map_map
proof (rule map_cong[OF refl])
  fix x assume x: "x \<in> set (runs t)"
  obtain u r where ur: "x = (u, r)" by (cases x)
  from runs_sound[OF x[unfolded ur]] have "breaks u" by simp
  from cap_step[OF b this, of c n] ur
  show "(case x of (u, r) \<Rightarrow> (i + length b + length u, r,
                if u = [] then c(n \<mapsto> b) else (c(n \<mapsto> b))(n \<mapsto> last_break u)))
      = ((\<lambda>(u, r). (i + length u, r, c(n \<mapsto> last_break u))) \<circ> (\<lambda>(u, r). (b @ u, r))) x"
    by (simp del: fun_upd_apply)
qed

lemma matcher_Star_runs:
  "matcher (Star (nl_group n)) (i, s, c)
     = map (\<lambda>(u, r). (i + length u, r, if u = [] then c else c(n \<mapsto> last_break u))) (runs s)"
proof (induction s arbitrary: i c rule: runs.induct)
  case (1 s)
  show ?case
  proof (cases "nl_split s")
    case None
    then show ?thesis by (simp add: matcher_Star_nl_None runs_None)
  next
    case (Some a)
    obtain b t where a: "a = (b, t)" by (cases a)
    note sp = Some[unfolded a]
    from nl_split_shorter[OF sp] have b: "b \<noteq> []" "b = [LF] \<or> b = [CR, LF]" by auto
    have "matcher (Star (nl_group n)) (i, s, c)
        = matcher (Star (nl_group n)) (i + length b, t, c(n \<mapsto> b)) @ [(i, s, c)]"
      by (rule matcher_Star_nl_Some[OF sp])
    also have "matcher (Star (nl_group n)) (i + length b, t, c(n \<mapsto> b))
        = map (\<lambda>(u, r). (i + length b + length u, r,
                if u = [] then c(n \<mapsto> b) else (c(n \<mapsto> b))(n \<mapsto> last_break u))) (runs t)"
      by (rule 1[OF sp refl])
    also have "\<dots> = map (\<lambda>(u, r). (i + length u, r, c(n \<mapsto> last_break u)))
          (map (\<lambda>(u, r). (b @ u, r)) (runs t))"
      by (rule runs_step[OF b(2)])
    also have "\<dots> = map (\<lambda>(u, r). (i + length u, r, if u = [] then c else c(n \<mapsto> last_break u)))
          (map (\<lambda>(u, r). (b @ u, r)) (runs t))"
      using b(1) by (simp add: case_prod_unfold del: fun_upd_apply)
    finally have "matcher (Star (nl_group n)) (i, s, c)
        = map (\<lambda>(u, r). (i + length u, r, if u = [] then c else c(n \<mapsto> last_break u)))
          (map (\<lambda>(u, r). (b @ u, r)) (runs t) @ [([], s)])"
      by simp
    then show ?thesis by (simp only: runs_Some[OF sp])
  qed
qed

lemma matcher_Plus_runs:
  "matcher (Plus (nl_group n)) (i, s, c)
     = map (\<lambda>(u, r). (i + length u, r, c(n \<mapsto> last_break u))) (runs1 s)"
proof (cases "nl_split s")
  case None
  then show ?thesis by (simp add: matcher_Plus_nl runs1_None del: matcher.simps(12))
next
  case (Some a)
  obtain b t where a: "a = (b, t)" by (cases a)
  note sp = Some[unfolded a]
  from nl_split_shorter[OF sp] have b: "b \<noteq> []" "b = [LF] \<or> b = [CR, LF]" by auto
  have "matcher (Plus (nl_group n)) (i, s, c)
      = matcher (Star (nl_group n)) (i + length b, t, c(n \<mapsto> b))"
    using sp by (simp add: matcher_Plus_nl del: matcher.simps(12) fun_upd_apply)
  also have "\<dots> = map (\<lambda>(u, r). (i + length b + length u, r,
                if u = [] then c(n \<mapsto> b) else (c(n \<mapsto> b))(n \<mapsto> last_break u))) (runs t)"
    by (rule matcher_Star_runs)
  also have "\<dots> = map (\<lambda>(u, r). (i + length u, r, c(n \<mapsto> last_break u)))
          (map (\<lambda>(u, r). (b @ u, r)) (runs t))"
    by (rule runs_step[OF b(2)])
  finally show ?thesis by (simp only: runs1_Some[OF sp])
qed

lemma matcher_single [simp]: "matcher (mk_seq [t]) st = matcher t st"
  by simp

lemma matcher_chars_then:
  "matcher (mk_seq (map Chr w @ [t])) (i, s, c)
     = (if take (length w) s = w then matcher t (i + length w, drop (length w) s, c) else [])"
  unfolding matcher_chars matcher_single ..

lemma map_comprehension:
  "map F [(u, v, r') . (u, r) \<leftarrow> xs, P r, (v, r') \<leftarrow> g r]
     = concat (map (\<lambda>(u, r). if P r then map (\<lambda>(v, r'). F (u, v, r')) (g r) else []) xs)"
  by (induction xs) (auto simp: map_concat comp_def case_prod_unfold)

lemma matcher_interior_at:
  "matcher (interior_ast d) (i, s, c)
     = map (\<lambda>(u, v, r'). (i + length u + length d + length v, r',
                            c(1 \<mapsto> last_break u, 2 \<mapsto> last_break v)))
           (interior_at d s)"
proof -
  have "matcher (interior_ast d) (i, s, c)
      = concat (map (matcher (mk_seq (map Chr d @ [Plus (nl_group 2)]))) (matcher (Plus (nl_group 1)) (i, s, c)))"
    by (simp add: interior_ast_def del: matcher.simps(12))
  also have "\<dots> = concat (map (\<lambda>(u, r).
        if take (length d) r = d
        then map (\<lambda>(v, r'). (i + length u + length d + length v, r',
                              c(1 \<mapsto> last_break u, 2 \<mapsto> last_break v)))
                 (runs1 (drop (length d) r))
        else []) (runs1 s))"
    unfolding matcher_Plus_runs map_map
    by (rule arg_cong[where f = concat], rule map_cong[OF refl])
       (auto simp: matcher_chars_then matcher_Plus_runs
             simp del: matcher.simps(12) fun_upd_apply matcher_mk_seq_Cons)
  also have "\<dots> = map (\<lambda>(u, v, r'). (i + length u + length d + length v, r',
                            c(1 \<mapsto> last_break u, 2 \<mapsto> last_break v)))
           (interior_at d s)"
    unfolding interior_at_def map_comprehension by (simp add: case_prod_unfold del: fun_upd_apply cong: if_cong)
  finally show ?thesis .
qed

lemma map_comprehension_end:
  "map F [(u, v, r') . (u, r) \<leftarrow> xs, P r, (v, r') \<leftarrow> g r, r' = []]
     = concat (map (\<lambda>(u, r). if P r
                     then concat (map (\<lambda>(v, r'). if r' = [] then [F (u, v, r')] else []) (g r))
                     else []) xs)"
proof -
  have inner: "\<And>u ys. map F (concat (map (\<lambda>(v, r'). if r' = [] then [(u, v, r')] else []) ys))
      = concat (map (\<lambda>(v, r'). if r' = [] then [F (u, v, r')] else []) ys)"
    subgoal for u ys by (induction ys) auto
    done
  show ?thesis by (induction xs) (auto simp: inner)
qed

lemma matcher_start_at:
  "map (\<lambda>(j, r, c'). (j, r)) (matcher (start_ast d) (i, s, c))
     = (if i = 0 then map (\<lambda>(u, v, r'). (length u + length d + length v, r')) (start_at d s) else [])"
proof (cases "i = 0")
  case False
  then show ?thesis by (simp add: start_ast_def)
next
  case True
  have "matcher (start_ast d) (0, s, c)
      = concat (map (matcher (mk_seq (map Chr d @ [Plus (nl_group 2)]))) (matcher (Star (nl_group 1)) (0, s, c)))"
    by (simp add: start_ast_def del: matcher.simps(12))
  also have "\<dots> = concat (map (\<lambda>(u, r).
        if take (length d) r = d
        then map (\<lambda>(v, r'). (length u + length d + length v, r',
                              (if u = [] then c else c(1 \<mapsto> last_break u))(2 \<mapsto> last_break v)))
                 (runs1 (drop (length d) r))
        else []) (runs s))"
    unfolding matcher_Star_runs map_map
    by (rule arg_cong[where f = concat], rule map_cong[OF refl])
       (auto simp: matcher_chars_then matcher_Plus_runs
             simp del: matcher.simps(12) fun_upd_apply matcher_mk_seq_Cons)
  finally have "map (\<lambda>(j, r, c'). (j, r)) (matcher (start_ast d) (0, s, c))
      = concat (map (\<lambda>(u, r).
        if take (length d) r = d
        then map (\<lambda>(v, r'). (length u + length d + length v, r')) (runs1 (drop (length d) r))
        else []) (runs s))"
    by (simp add: map_concat comp_def case_prod_unfold if_distrib[of "map _"] del: fun_upd_apply cong: if_cong)
  also have "\<dots> = map (\<lambda>(u, v, r'). (length u + length d + length v, r')) (start_at d s)"
    unfolding start_at_def map_comprehension by (simp add: case_prod_unfold cong: if_cong)
  finally show ?thesis using True by simp
qed

lemma matcher_Eol_tail:
  "concat (map (matcher (mk_seq [Eol])) xs)
     = concat (map (\<lambda>(j, r, c'). if r = [] then [(j, r, c')] else []) xs)"
  by (induction xs) auto

lemma matcher_end_at:
  "map (\<lambda>(j, r, c'). (j, r)) (matcher (end_ast d) (i, s, c))
     = map (\<lambda>(u, v, r'). (i + length u + length d + length v, r')) (end_at d s)"
proof -
  have "matcher (end_ast d) (i, s, c)
      = concat (map (matcher (mk_seq (map Chr d @ [Star (nl_group 2), Eol]))) (matcher (Plus (nl_group 1)) (i, s, c)))"
    by (simp add: end_ast_def del: matcher.simps(12))
  also have "\<dots> = concat (map (\<lambda>(u, r).
        if take (length d) r = d
        then concat (map (\<lambda>(v, r'). if r' = [] then
                              [(i + length u + length d + length v, r',
                                if v = [] then c(1 \<mapsto> last_break u)
                                else c(1 \<mapsto> last_break u, 2 \<mapsto> last_break v))] else [])
                 (runs (drop (length d) r)))
        else []) (runs1 s))"
    unfolding matcher_Plus_runs map_map
    by (rule arg_cong[where f = concat], rule map_cong[OF refl])
       (auto simp: matcher_chars matcher_Star_runs matcher_Eol_tail comp_def case_prod_unfold
             simp del: matcher.simps(12) fun_upd_apply cong: if_cong
             intro!: arg_cong[where f = concat])
  finally have "map (\<lambda>(j, r, c'). (j, r)) (matcher (end_ast d) (i, s, c))
      = concat (map (\<lambda>(u, r).
        if take (length d) r = d
        then concat (map (\<lambda>(v, r'). if r' = [] then [(i + length u + length d + length v, r')] else [])
                 (runs (drop (length d) r)))
        else []) (runs1 s))"
    by (simp add: map_concat comp_def case_prod_unfold if_distrib[of "map _"] del: fun_upd_apply cong: if_cong)
  also have "\<dots> = map (\<lambda>(u, v, r'). (i + length u + length d + length v, r')) (end_at d s)"
    unfolding end_at_def map_comprehension_end by (simp add: case_prod_unfold cong: if_cong)
  finally show ?thesis .
qed

lemma end_at_Nil [simp]: "end_at d [] = []"
  by (simp add: end_at_def runs1_None nl_split_def)

lemma first_match_later:
  assumes "\<And>i s. 0 < i \<Longrightarrow> matcher r (i, s, Map.empty) = []"
  shows "0 < i \<Longrightarrow> first_match r i s = None"
  by (induction s arbitrary: i) (simp_all add: assms)

lemma start_later: "0 < i \<Longrightarrow> matcher (start_ast d) (i, s, c) = []"
  using matcher_start_at[of d i s c] by simp

lemma first_match_start:
  "first_match (start_ast d) 0 s =
     (case matcher (start_ast d) (0, s, Map.empty) of [] \<Rightarrow> None | st # rest \<Rightarrow> Some (0, s, st))"
proof (cases "matcher (start_ast d) (0, s, Map.empty)")
  case Nil
  have later: "\<And>t. first_match (start_ast d) (Suc 0) t = None"
    by (rule first_match_later[OF start_later]) simp_all
  from Nil show ?thesis by (cases s) (simp_all add: later)
next
  case (Cons st rest)
  with first_match_hit[OF Cons] show ?thesis by simp
qed

lemma literal_start_eq:
  "RegExp_test \<lparr>ast = start_ast d, ncaps = 2, global = False\<rparr> s = (literal_start d s \<noteq> None)"
  "replace_first \<lparr>ast = start_ast d, ncaps = 2, global = False\<rparr> [] s
     = (case literal_start d s of Some r \<Rightarrow> r | None \<Rightarrow> s)"
proof -
  let ?m = "matcher (start_ast d) (0, s, Map.empty)"
  have proj: "map (\<lambda>(j, r, c'). (j, r)) ?m
              = map (\<lambda>(u, v, r'). (length u + length d + length v, r')) (start_at d s)"
    using matcher_start_at[of d 0 s Map.empty] by simp
  show "RegExp_test \<lparr>ast = start_ast d, ncaps = 2, global = False\<rparr> s = (literal_start d s \<noteq> None)"
  proof (cases ?m)
    case Nil
    with proj have "start_at d s = []" by simp
    with Nil show ?thesis by (simp add: RegExp_test_def first_match_start literal_start_def)
  next
    case (Cons st rest)
    with proj have "start_at d s \<noteq> []" by auto
    with Cons show ?thesis
      by (auto simp: RegExp_test_def first_match_start literal_start_def split: list.splits)
  qed
  show "replace_first \<lparr>ast = start_ast d, ncaps = 2, global = False\<rparr> [] s
     = (case literal_start d s of Some r \<Rightarrow> r | None \<Rightarrow> s)"
  proof (cases ?m)
    case Nil
    with proj have "start_at d s = []" by simp
    with Nil show ?thesis by (simp add: replace_first_def first_match_start literal_start_def)
  next
    case (Cons st rest)
    obtain j r c' where st: "st = (j, r, c')" by (cases st)
    from proj Cons st obtain u v rest' where "start_at d s = (u, v, r) # rest'"
      by (cases "start_at d s") auto
    with Cons st show ?thesis
      by (simp add: replace_first_def first_match_start literal_start_def)
  qed
qed

lemma end_at_rest: "(u, v, r) \<in> set (end_at d s) \<Longrightarrow> r = []"
  by (auto simp: end_at_def split: if_splits)

lemma matcher_end_Nil: "matcher (end_ast d) (i, s, c) = [] \<longleftrightarrow> end_at d s = []"
  using matcher_end_at[of d i s c] by (metis map_is_Nil_conv)

lemma matcher_end_hd:
  assumes "matcher (end_ast d) (i, s, c) = (j, r, c') # rest"
  shows "r = []"
proof -
  from assms matcher_end_at[of d i s c] obtain u v r' where "(u, v, r') \<in> set (end_at d s)" "r = r'"
    by (cases "end_at d s") auto
  with end_at_rest show ?thesis by blast
qed

lemma first_match_end:
  "first_match (end_ast d) i s =
     (case literal_end d s of
        None \<Rightarrow> None
      | Some pre \<Rightarrow> Some (i + length pre, drop (length pre) s,
                         hd (matcher (end_ast d) (i + length pre, drop (length pre) s, Map.empty))))"
proof (induction s arbitrary: i)
  case Nil
  have "matcher (end_ast d) (i, [], Map.empty) = []" by (simp add: matcher_end_Nil)
  then show ?case by simp
next
  case (Cons x xs)
  show ?case
  proof (cases "end_at d (x # xs) = []")
    case True
    then have m: "matcher (end_ast d) (i, x # xs, Map.empty) = []" by (simp add: matcher_end_Nil)
    from True m Cons[of "Suc i"] show ?thesis by (simp split: option.splits)
  next
    case False
    then have "matcher (end_ast d) (i, x # xs, Map.empty) \<noteq> []" by (simp add: matcher_end_Nil)
    then obtain st rest where m: "matcher (end_ast d) (i, x # xs, Map.empty) = st # rest"
      by (cases "matcher (end_ast d) (i, x # xs, Map.empty)") auto
    with False show ?thesis by simp
  qed
qed

lemma literal_end_prefix: "literal_end d s = Some pre \<Longrightarrow> pre = take (length pre) s"
  by (induction s arbitrary: pre) (auto split: if_splits)

lemma literal_end_match:
  "literal_end d s = Some pre \<Longrightarrow> matcher (end_ast d) (i + length pre, drop (length pre) s, c) \<noteq> []"
proof (induction s arbitrary: pre i)
  case Nil
  then show ?case by simp
next
  case (Cons x xs)
  show ?case
  proof (cases "end_at d (x # xs) = []")
    case True
    with Cons.prems obtain pre' where p: "literal_end d xs = Some pre'" "pre = x # pre'" by auto
    from Cons.IH[OF p(1), of "Suc i"] p(2) show ?thesis by simp
  next
    case False
    with Cons.prems have "pre = []" by simp
    with False show ?thesis by (simp add: matcher_end_Nil)
  qed
qed

lemma literal_end_eq:
  "RegExp_test \<lparr>ast = end_ast d, ncaps = 2, global = False\<rparr> s = (literal_end d s \<noteq> None)"
  "replace_first \<lparr>ast = end_ast d, ncaps = 2, global = False\<rparr> [] s
     = (case literal_end d s of Some r \<Rightarrow> r | None \<Rightarrow> s)"
proof -
  show "RegExp_test \<lparr>ast = end_ast d, ncaps = 2, global = False\<rparr> s = (literal_end d s \<noteq> None)"
    by (cases "literal_end d s") (simp_all add: RegExp_test_def first_match_end)
  show "replace_first \<lparr>ast = end_ast d, ncaps = 2, global = False\<rparr> [] s
     = (case literal_end d s of Some r \<Rightarrow> r | None \<Rightarrow> s)"
  proof (cases "literal_end d s")
    case None
    then show ?thesis by (simp add: replace_first_def first_match_end)
  next
    case (Some pre)
    let ?m = "matcher (end_ast d) (0 + length pre, drop (length pre) s, Map.empty)"
    from literal_end_match[OF Some, of 0 Map.empty] obtain j r c' rest where m: "?m = (j, r, c') # rest"
      by (cases ?m) auto
    from matcher_end_hd[OF m] have r: "r = []" .
    from Some m r literal_end_prefix[OF Some] show ?thesis
      by (simp add: replace_first_def first_match_end)
  qed
qed

lemma replace_loop_literal:
  "replace_loop \<lparr>ast = interior_ast d, ncaps = 2, global = True\<rparr> repl whole i s
     = literal_subst d repl whole i s"
proof (induction d repl whole i s rule: literal_subst.induct)
  case (1 d repl whole i s)
  let ?re = "\<lparr>ast = interior_ast d, ncaps = 2, global = True\<rparr>"
  show ?case
  proof (cases "interior_at d s")
    case Nil
    then have m: "matcher (ast ?re) (i, s, Map.empty) = []" by (simp add: matcher_interior_at)
    show ?thesis
    proof (cases s)
      case Nil': Nil
      with m replace_loop_end[of ?re i repl whole] Nil show ?thesis
        by (subst literal_subst.simps) simp
    next
      case (Cons x xs)
      from m replace_loop_miss[of ?re i x xs repl whole] Cons
      have "replace_loop ?re repl whole i s = x # replace_loop ?re repl whole (Suc i) xs" by simp
      with 1(1)[OF Nil Cons] Nil Cons show ?thesis
        by (subst literal_subst.simps) simp
    qed
  next
    case (Cons a rest)
    obtain u v r where a: "a = (u, v, r)" by (cases a)
    from Cons a have "(u, v, r) \<in> set (interior_at d s)" by simp
    from interior_at_sound[OF this] have s: "s = u @ d @ v @ r" and u: "u \<noteq> []" by auto
    have m: "matcher (ast ?re) (i, s, Map.empty)
        = (i + length u + length d + length v, r, [1 \<mapsto> last_break u, 2 \<mapsto> last_break v])
          # map (\<lambda>(u, v, r'). (i + length u + length d + length v, r',
                            [1 \<mapsto> last_break u, 2 \<mapsto> last_break v])) rest"
      using Cons a by (simp add: matcher_interior_at del: fun_upd_apply)
    have t: "take (i + length u + length d + length v - i) s = u @ d @ v"
      using s by simp
    from s u have sne: "s \<noteq> []" by simp
    from replace_loop_hit[OF m, of repl whole] t u sne
    have "replace_loop ?re repl whole i s
        = GetSubstitution (u @ d @ v) (take i whole) r [1 \<mapsto> last_break u, 2 \<mapsto> last_break v] 2 repl
          @ replace_loop ?re repl whole (i + length u + length d + length v) r"
      by (simp del: fun_upd_apply)
    with 1(2)[OF Cons a[symmetric] refl] Cons a show ?thesis
      by (subst literal_subst.simps) (simp add: add.assoc del: fun_upd_apply)
  qed
qed

lemma convert_is_literal: "convert nl lc ext contents = Inr (convert_literal nl lc ext contents)"
proof -
  have c: "\<And>(x :: string option) (s :: string) t. (if x \<noteq> None then (case x of Some r \<Rightarrow> r | None \<Rightarrow> s) else t)
      = (case x of Some r \<Rightarrow> r | None \<Rightarrow> t)"
    by (simp split: option.splits)
  show ?thesis
    unfolding convert_eq convert_literal_def Let_def literal_start_eq literal_end_eq c
      replace_all_def replace_loop_literal ..
qed

lemma runs_self: "([], s) \<in> set (runs s)"
  by (cases "nl_split s") (auto simp: runs_None runs_Some)

lemma runs_complete: "breaks u \<Longrightarrow> (u, r) \<in> set (runs (u @ r))"
proof (induction u rule: breaks.induct)
  case 1
  show ?case by (simp add: runs_self)
next
  case (2 x t)
  show ?case
  proof (cases "x = LF")
    case True
    with 2 have "breaks t" by simp
    with 2(1)[OF True] have ih: "(t, r) \<in> set (runs (t @ r))" by simp
    have "nl_split ((x # t) @ r) = Some ([LF], t @ r)" using True by (simp add: nl_split_def)
    from runs_Some[OF this] ih True show ?thesis by force
  next
    case False
    with 2(3) obtain t' where x: "x = CR" and t: "t = LF # t'" and b: "breaks t'"
      by (cases t) (auto split: if_splits)
    from 2(2)[OF False x t b] have ih: "(t', r) \<in> set (runs (t' @ r))" by simp
    have "nl_split ((x # t) @ r) = Some ([CR, LF], t' @ r)" using x t by (simp add: nl_split_def)
    from runs_Some[OF this] ih x t show ?thesis by force
  qed
qed

lemma runs_iff: "(u, r) \<in> set (runs s) \<longleftrightarrow> breaks u \<and> s = u @ r"
  using runs_sound runs_complete by blast

lemma runs1_iff: "(u, r) \<in> set (runs1 s) \<longleftrightarrow> breaks u \<and> u \<noteq> [] \<and> s = u @ r"
proof
  assume "(u, r) \<in> set (runs1 s)"
  then show "breaks u \<and> u \<noteq> [] \<and> s = u @ r" by (rule runs1_sound)
next
  assume a: "breaks u \<and> u \<noteq> [] \<and> s = u @ r"
  then obtain b t where sp: "nl_split s = Some (b, t)"
    using breaks_nl_split[of u r] by (cases "nl_split s") auto
  from a runs_complete[of u r] have "(u, r) \<in> set (runs s)" by simp
  then have "(u, r) \<in> set (runs1 s) \<or> (u, r) = ([], s)"
    unfolding runs_Some[OF sp] runs1_Some[OF sp] by auto
  with a show "(u, r) \<in> set (runs1 s)" by simp
qed

lemma take_is: "take (length d) r = d \<longleftrightarrow> (\<exists>t. r = d @ t)"
  by (metis append_eq_conv_conj append_take_drop_id)

lemma interior_at_iff:
  "(u, v, r) \<in> set (interior_at d s)
     \<longleftrightarrow> breaks u \<and> u \<noteq> [] \<and> breaks v \<and> v \<noteq> [] \<and> s = u @ d @ v @ r"
proof
  assume "(u, v, r) \<in> set (interior_at d s)"
  then show "breaks u \<and> u \<noteq> [] \<and> breaks v \<and> v \<noteq> [] \<and> s = u @ d @ v @ r" by (rule interior_at_sound)
next
  assume a: "breaks u \<and> u \<noteq> [] \<and> breaks v \<and> v \<noteq> [] \<and> s = u @ d @ v @ r"
  then have 1: "(u, d @ v @ r) \<in> set (runs1 s)" by (simp add: runs1_iff)
  from a have 2: "(v, r) \<in> set (runs1 (drop (length d) (d @ v @ r)))" by (simp add: runs1_iff)
  have 3: "take (length d) (d @ v @ r) = d" by simp
  from 1 2 3 show "(u, v, r) \<in> set (interior_at d s)"
    unfolding interior_at_def by force
qed

lemma start_at_iff:
  "(u, v, r) \<in> set (start_at d s) \<longleftrightarrow> breaks u \<and> breaks v \<and> v \<noteq> [] \<and> s = u @ d @ v @ r"
proof
  assume "(u, v, r) \<in> set (start_at d s)"
  then obtain r0 where a: "(u, r0) \<in> set (runs s)" "take (length d) r0 = d"
      "(v, r) \<in> set (runs1 (drop (length d) r0))"
    by (auto simp: start_at_def split: if_splits)
  from a(2) have "r0 = d @ drop (length d) r0" by (metis append_take_drop_id)
  with runs_sound[OF a(1)] runs1_sound[OF a(3)]
  show "breaks u \<and> breaks v \<and> v \<noteq> [] \<and> s = u @ d @ v @ r" by auto
next
  assume a: "breaks u \<and> breaks v \<and> v \<noteq> [] \<and> s = u @ d @ v @ r"
  then have 1: "(u, d @ v @ r) \<in> set (runs s)" by (simp add: runs_iff)
  from a have 2: "(v, r) \<in> set (runs1 (drop (length d) (d @ v @ r)))" by (simp add: runs1_iff)
  have 3: "take (length d) (d @ v @ r) = d" by simp
  from 1 2 3 show "(u, v, r) \<in> set (start_at d s)"
    unfolding start_at_def by force
qed

lemma end_at_iff:
  "(u, v, r) \<in> set (end_at d s) \<longleftrightarrow> breaks u \<and> u \<noteq> [] \<and> breaks v \<and> r = [] \<and> s = u @ d @ v"
proof
  assume "(u, v, r) \<in> set (end_at d s)"
  then obtain r0 where a: "(u, r0) \<in> set (runs1 s)" "take (length d) r0 = d"
      "(v, r) \<in> set (runs (drop (length d) r0))" "r = []"
    by (auto simp: end_at_def split: if_splits)
  from a(2) have "r0 = d @ drop (length d) r0" by (metis append_take_drop_id)
  with runs1_sound[OF a(1)] runs_sound[OF a(3)] a(4)
  show "breaks u \<and> u \<noteq> [] \<and> breaks v \<and> r = [] \<and> s = u @ d @ v" by auto
next
  assume a: "breaks u \<and> u \<noteq> [] \<and> breaks v \<and> r = [] \<and> s = u @ d @ v"
  then have 1: "(u, d @ v) \<in> set (runs1 s)" by (simp add: runs1_iff)
  from a runs_complete[of v "[]"] have 2: "(v, []) \<in> set (runs (drop (length d) (d @ v)))" by simp
  have 3: "take (length d) (d @ v) = d" by simp
  from 1 2 3 a show "(u, v, r) \<in> set (end_at d s)"
    unfolding end_at_def by force
qed

section \<open>Properties\<close>

text \<open>
  C1. With the delimiters \<^verbatim>\<open>/*\<close> and \<^verbatim>\<open>*/\<close> and the language tag \<^verbatim>\<open>c\<close>, the text made of
  the open delimiter on its own line, the prose line, the close delimiter on its own
  line and the code line up to the end of the file is converted to the prose line, one
  blank line, the opening fence with the tag, the code line and the closing fence, and
  nothing else. The line breaks written by the converter are \<^verbatim>\<open>os.EOL\<close>: the statement
  is given for both values it can take.
\<close>

theorem C1_scenario:
  "convert [LF] c_config ''foo''
     (''/*'' @ [LF] @ ''Hello prose.'' @ [LF] @ ''*/'' @ [LF] @ ''int x = 1;'')
   = Inr (''Hello prose.'' @ [LF] @ [LF] @ fence @ ''c'' @ [LF] @ ''int x = 1;'' @ [LF] @ fence)
   \<and> convert [CR, LF] c_config ''foo''
     (''/*'' @ [LF] @ ''Hello prose.'' @ [LF] @ ''*/'' @ [LF] @ ''int x = 1;'')
   = Inr (''Hello prose.'' @ [CR, LF] @ [CR, LF] @ fence @ ''c'' @ [CR, LF] @ ''int x = 1;''
          @ [CR, LF] @ fence)"
  by code_simp




text \<open>
  C3, as the code has it. Let the language tag be \<open>js_or (lang lc) ext\<close>: the configured
  tag when there is one and it is not empty, the extension otherwise. If the tag has no
  line feed, neither delimiter ends in a carriage return, and the input contains neither
  delimiter, then the output is the opening fence with the tag, a line break, the input,
  a line break and the closing fence.
\<close>

theorem C3_wrapped_once:
  assumes "nl = [LF] \<or> nl = [CR, LF]"
    and "LF \<notin> set (js_or (lang lc) ext)"
    and "last (open_delim lc) \<noteq> CR" and "last (close_delim lc) \<noteq> CR"
    and "\<not> sublist (open_delim lc) contents" and "\<not> sublist (close_delim lc) contents"
  shows "convert nl lc ext contents = Inr (fence @ js_or (lang lc) ext @ nl @ contents @ nl @ fence)
     \<and> js_or (lang lc) ext = (case lang lc of None \<Rightarrow> ext | Some l \<Rightarrow> if l = [] then ext else l)"
proof -
  have ne: "\<And>d. \<not> sublist d contents \<Longrightarrow> d \<noteq> [] \<and> \<not> own_line d contents"
  proof
    fix d assume n: "\<not> sublist d contents"
    show "d \<noteq> []" using n by auto
    show "\<not> own_line d contents" using n unfolding sublist_def own_line_def by blast
  qed
  from ne[OF assms(5)] ne[OF assms(6)] assms(1-4)
  have "convert nl lc ext contents = Inr (fence @ js_or (lang lc) ext @ nl @ contents @ nl @ fence)"
    by (intro convert_verbatim) auto
  then show ?thesis by (simp add: js_or_def)
qed

text \<open>
  The claim as the specification states it fails in two ways. A tag that is present and
  empty is not carried by the fence: the extension is. And with a tag that holds a line
  feed, a delimiter that the input does not contain can be found in the fence line the
  script itself has written: here the close delimiter is stripped from it, and the
  output is an opening fence with nothing after it.
\<close>

theorem C3_counterexample:
  "convert [LF] \<lparr>open_delim = ''/*'', close_delim = ''*/'', lang = Some []\<rparr> ''foo'' ''x''
     = Inr (fence @ ''foo'' @ [LF] @ ''x'' @ [LF] @ fence)
   \<and> \<not> sublist ''/*'' [] \<and> \<not> sublist ''*/'' []
   \<and> convert [LF] \<lparr>open_delim = ''/*'', close_delim = ''*/'', lang = Some (''c'' @ [LF] @ ''*/'')\<rparr>
        ''foo'' []
     = Inr (fence @ ''c'')"
  by code_simp

theorem C3_witness:
  "\<not> sublist (open_delim c_config) ''int x = 1;'' \<and> \<not> sublist (close_delim c_config) ''int x = 1;''
   \<and> convert [LF] c_config ''foo'' ''int x = 1;''
       = Inr (fence @ ''c'' @ [LF] @ ''int x = 1;'' @ [LF] @ fence)"
proof -
  have a: "[LF] = [LF] \<or> [LF] = [CR, LF]" by simp
  have b: "LF \<notin> set (js_or (lang c_config) ''foo'')" by code_simp
  have c: "last (open_delim c_config) \<noteq> CR" by code_simp
  have d: "last (close_delim c_config) \<noteq> CR" by code_simp
  have e: "\<not> sublist (open_delim c_config) ''int x = 1;''" by code_simp
  have f: "\<not> sublist (close_delim c_config) ''int x = 1;''" by code_simp
  have g: "js_or (lang c_config) ''foo'' = ''c''" by code_simp
  from C3_wrapped_once[OF a b c d e f] e f g show ?thesis by simp
qed

text \<open>
  C4. A file whose extension has no entry in the table is meant to be skipped. The
  script looks the extension up with a plain property access, so an extension that names
  a member of \<^verbatim>\<open>Object.prototype\<close> is taken for configured: for
  \<^verbatim>\<open>in/notes.constructor\<close>, with a table that has the one key \<^verbatim>\<open>foo\<close>, the script makes
  the output directory, reads the file and fails with a TypeError.
\<close>

theorem C4_inherited_property:
  "config demo_env ''constructor'' = None
   \<and> literateToMdFile demo_env proto_world
        [''in'', ''notes.constructor''] [''out'', ''notes.constructor'']
     = (put [''out''] Dir proto_world, Inl TypeError)"
  by code_simp

text \<open>
  C5, as the code has it. \<^verbatim>\<open>Promise.all\<close> fails fast. A walk that has settled keeps its
  outcome whatever its remaining tasks do. A walk that is pending is rejected by a move
  exactly when the task that moves fails, and with the error of that task: the first
  failure in time, whichever sibling it comes from and whatever the state of the others,
  which are neither awaited nor cancelled. It is fulfilled only by the move of its last
  pending task, and while it is pending some task can move. One error is all a rejected
  walk carries: the errors of the tasks that fail later are not collected.
\<close>

theorem C5_first_rejection:
  assumes "literateToMd env sched w0 inp out = Some (w, t)"
    and "advance env a w t = Some (w', t')"
  shows "(\<forall>r. outcome t = Some r \<longrightarrow> outcome t' = Some r)
     \<and> (outcome t = None \<longrightarrow>
          (\<forall>e. outcome t' = Some (Inl e) \<longleftrightarrow>
                 (\<exists>l. task_at a t = Some l \<and> snd (resume env w l) = Settled (Inl e))))
     \<and> (outcome t = None \<longrightarrow> outcome t' = Some (Inr ()) \<longrightarrow> pending t = 1)
     \<and> (outcome t' = None \<longrightarrow> 0 < pending t')"
proof -
  from assms(1) have wf: "well_formed t" by (rule walk_well_formed)
  from advance_well_formed[OF assms(2) wf] have wf': "well_formed t'" .
  have 1: "\<forall>r. outcome t = Some r \<longrightarrow> outcome t' = Some r"
    using advance_settled[OF assms(2)] by blast
  have 2: "outcome t = None \<longrightarrow>
          (\<forall>e. outcome t' = Some (Inl e) \<longleftrightarrow>
                 (\<exists>l. task_at a t = Some l \<and> snd (resume env w l) = Settled (Inl e)))"
    using advance_rejects[OF assms(2) wf] by blast
  have 3: "outcome t = None \<longrightarrow> outcome t' = Some (Inr ()) \<longrightarrow> pending t = 1"
    using advance_fulfils[OF assms(2) wf] by blast
  have 4: "outcome t' = None \<longrightarrow> 0 < pending t'"
  proof
    assume "outcome t' = None"
    with pending_idle[OF wf'] have "pending t' \<noteq> 0" by auto
    then show "0 < pending t'" by simp
  qed
  from 1 2 3 4 show ?thesis by (intro conjI)
qed

text \<open>
  The claim as the specification states it fails: with two children that both fail, on
  directories standing where their Markdown files are to be written, the walk is
  rejected with the error of whichever child fails first, at a moment when the other has
  not yet started; and when the other fails in its turn, its error changes nothing.
\<close>

theorem C5_counterexample:
  "literateToMd demo_env [[], [], [0], [0], [0], [0]] failing_world [''in''] [''out'']
     = Some (failing_world,
             Rejected (EISDIR [''out'', ''a.md''])
               [Settled (Inl (EISDIR [''out'', ''a.md''])),
                Call [''in'', ''b.foo''] [''out'', ''b.foo'']])
   \<and> literateToMd demo_env [[], [], [1], [1], [1], [1]] failing_world [''in''] [''out'']
     = Some (failing_world,
             Rejected (EISDIR [''out'', ''b.md''])
               [Call [''in'', ''a.foo''] [''out'', ''a.foo''],
                Settled (Inl (EISDIR [''out'', ''b.md'']))])
   \<and> literateToMd demo_env [[], [], [0], [0], [0], [0], [1], [1], [1], [1]]
        failing_world [''in''] [''out'']
     = Some (failing_world,
             Rejected (EISDIR [''out'', ''a.md''])
               [Settled (Inl (EISDIR [''out'', ''a.md''])),
                Settled (Inl (EISDIR [''out'', ''b.md'']))])"
  by code_simp

theorem C5_witness:
  "literateToMd demo_env [[], [], [1], [0], [0], [0]] failing_world [''in''] [''out'']
     = Some (failing_world,
             Waiting [Writing [''in'', ''a.foo''] [''out'', ''a.foo'']
                        (fence @ ''c'' @ [LF] @ ''x'' @ [LF] @ fence),
                      Making [''in'', ''b.foo''] [''out'', ''b.foo'']])
   \<and> advance demo_env [0] failing_world
        (Waiting [Writing [''in'', ''a.foo''] [''out'', ''a.foo'']
                    (fence @ ''c'' @ [LF] @ ''x'' @ [LF] @ fence),
                  Making [''in'', ''b.foo''] [''out'', ''b.foo'']])
     = Some (failing_world,
             Rejected (EISDIR [''out'', ''a.md''])
               [Settled (Inl (EISDIR [''out'', ''a.md''])),
                Making [''in'', ''b.foo''] [''out'', ''b.foo'']])
   \<and> (\<exists>l. task_at [0]
               (Waiting [Writing [''in'', ''a.foo''] [''out'', ''a.foo'']
                           (fence @ ''c'' @ [LF] @ ''x'' @ [LF] @ fence),
                         Making [''in'', ''b.foo''] [''out'', ''b.foo'']]) = Some l
          \<and> snd (resume demo_env failing_world l) = Settled (Inl (EISDIR [''out'', ''a.md''])))"
proof -
  let ?t = "Waiting [Writing [''in'', ''a.foo''] [''out'', ''a.foo'']
                        (fence @ ''c'' @ [LF] @ ''x'' @ [LF] @ fence),
                      Making [''in'', ''b.foo''] [''out'', ''b.foo'']]"
  let ?t' = "Rejected (EISDIR [''out'', ''a.md''])
               [Settled (Inl (EISDIR [''out'', ''a.md''])),
                Making [''in'', ''b.foo''] [''out'', ''b.foo'']]"
  have run: "literateToMd demo_env [[], [], [1], [0], [0], [0]] failing_world [''in''] [''out'']
     = Some (failing_world, ?t)"
    by code_simp
  have move: "advance demo_env [0] failing_world ?t = Some (failing_world, ?t')"
    by code_simp
  have pend: "outcome ?t = None" and rej: "outcome ?t' = Some (Inl (EISDIR [''out'', ''a.md'']))"
    by simp_all
  from C5_first_rejection[OF run move] pend
  have "\<forall>e. outcome ?t' = Some (Inl e) \<longleftrightarrow>
          (\<exists>l. task_at [0] ?t = Some l \<and> snd (resume demo_env failing_world l) = Settled (Inl e))"
    by blast
  with rej have "\<exists>l. task_at [0] ?t = Some l
      \<and> snd (resume demo_env failing_world l) = Settled (Inl (EISDIR [''out'', ''a.md'']))"
    by blast
  with run move show ?thesis by (intro conjI)
qed

text \<open>
  C6. For every configuration and every text, the conversion is the conversion with
  literal matching: \<open>convert\<close>, which escapes the two delimiters, builds its four patterns
  from them and runs the regular-expression engine, returns what \<open>convert_literal\<close>
  returns, which compares the characters of the delimiters with the text. And a place
  of the text is taken for a delimiter exactly when the delimiter, character by
  character, stands there between line breaks: the leading one after line breaks or
  none and before at least one; the trailing one after at least one and before line
  breaks or none that end the text; an interior one with at least one on each side.
\<close>

theorem C6_literal_delimiters:
  "convert nl lc ext contents = Inr (convert_literal nl lc ext contents)
   \<and> ((u, v, r) \<in> set (start_at d s) \<longleftrightarrow> breaks u \<and> breaks v \<and> v \<noteq> [] \<and> s = u @ d @ v @ r)
   \<and> ((u, v, r) \<in> set (end_at d s) \<longleftrightarrow> breaks u \<and> u \<noteq> [] \<and> breaks v \<and> r = [] \<and> s = u @ d @ v)
   \<and> ((u, v, r) \<in> set (interior_at d s)
        \<longleftrightarrow> breaks u \<and> u \<noteq> [] \<and> breaks v \<and> v \<noteq> [] \<and> s = u @ d @ v @ r)"
  using convert_is_literal start_at_iff end_at_iff interior_at_iff by (intro conjI)

text \<open>
  The escaping is what makes the comparison literal: without it the pattern for the open
  delimiter of the scenario would ask for any number of slashes between line breaks.
\<close>

lemma unescaped_delimiter:
  "RegExp_new (interior_src ''/*'') ''g''
     = Some \<lparr>ast = mk_seq [Plus (nl_group 1), Star (Chr (CHR ''/'')), Plus (nl_group 2)],
             ncaps = 2, global = True\<rparr>"
  by code_simp


text \<open>
  C8. The Markdown a conversion writes is a function of the text of the input file, the
  table and \<^verbatim>\<open>os.EOL\<close>: two runs of \<^verbatim>\<open>literateToMdFile\<close> on the same paths, in two file
  systems that agree on what reading the input file returns, that both succeed for a
  configured extension, leave the same text in the output file.
\<close>

theorem C8_deterministic:
  assumes "literateToMdFile env w1 inp out = (w1', Inr ())"
    and "literateToMdFile env w2 inp out = (w2', Inr ())"
    and "readFile w1 inp = readFile w2 inp"
    and "config_get (config env) (drop 1 (snd (snd (path_parse out)))) \<noteq> Undefined"
  shows "\<exists>md. lookup w1' (md_path out) = Some (File md) \<and> lookup w2' (md_path out) = Some (File md)"
proof -
  obtain dir name ext where pp: "path_parse out = (dir, name, ext)"
    by (cases "path_parse out") auto
  with assms(4) have cfg: "config_get (config env) (drop 1 ext) \<noteq> Undefined" by simp
  from literateToMdFile_success[OF assms(1) pp cfg] obtain lc c md where
    a: "config env (drop 1 ext) = Some lc" "lookup w1 inp = Some (File c)"
       "convert (eol env) lc (drop 1 ext) c = Inr md" "lookup w1' (md_path out) = Some (File md)"
    by blast
  from literateToMdFile_success[OF assms(2) pp cfg] obtain lc' c' md' where
    b: "config env (drop 1 ext) = Some lc'" "lookup w2 inp = Some (File c')"
       "convert (eol env) lc' (drop 1 ext) c' = Inr md'" "lookup w2' (md_path out) = Some (File md')"
    by blast
  from a(2) b(2) assms(3) have "c = c'" by (simp add: readFile_def)
  with a b show ?thesis by auto
qed

theorem C8_witness:
  "literateToMdFile demo_env demo_world [''in'', ''a.foo''] [''out'', ''a.foo'']
     = (fst (literateToMdFile demo_env demo_world [''in'', ''a.foo''] [''out'', ''a.foo'']), Inr ())
   \<and> literateToMdFile demo_env (put [''out''] Dir demo_world) [''in'', ''a.foo''] [''out'', ''a.foo'']
     = (fst (literateToMdFile demo_env (put [''out''] Dir demo_world)
               [''in'', ''a.foo''] [''out'', ''a.foo'']), Inr ())
   \<and> readFile demo_world [''in'', ''a.foo''] = readFile (put [''out''] Dir demo_world) [''in'', ''a.foo'']
   \<and> (\<exists>md. lookup (fst (literateToMdFile demo_env demo_world [''in'', ''a.foo''] [''out'', ''a.foo'']))
               (md_path [''out'', ''a.foo'']) = Some (File md)
           \<and> lookup (fst (literateToMdFile demo_env (put [''out''] Dir demo_world)
                             [''in'', ''a.foo''] [''out'', ''a.foo'']))
               (md_path [''out'', ''a.foo'']) = Some (File md))"
proof -
  have r1: "literateToMdFile demo_env demo_world [''in'', ''a.foo''] [''out'', ''a.foo'']
     = (fst (literateToMdFile demo_env demo_world [''in'', ''a.foo''] [''out'', ''a.foo'']), Inr ())"
    by code_simp
  have r2: "literateToMdFile demo_env (put [''out''] Dir demo_world) [''in'', ''a.foo''] [''out'', ''a.foo'']
     = (fst (literateToMdFile demo_env (put [''out''] Dir demo_world)
               [''in'', ''a.foo''] [''out'', ''a.foo'']), Inr ())"
    by code_simp
  have rd: "readFile demo_world [''in'', ''a.foo'']
              = readFile (put [''out''] Dir demo_world) [''in'', ''a.foo'']"
    by code_simp
  have cfg: "config_get (config demo_env) (drop 1 (snd (snd (path_parse [''out'', ''a.foo''])))) \<noteq> Undefined"
    by code_simp
  from C8_deterministic[OF r1 r2 rd cfg] show ?thesis
    using r1 r2 rd by blast
qed

text \<open>
  C9, as the code has it. Whatever the order of the moves, and at every moment of a run,
  every path of the file system is in one of three cases. It is as it was at the start.
  Or it was missing and is now a directory, on the way to an output path that mirrors a
  regular file of the input tree: the same relative path under the two roots. Or it
  was not a directory and is now a regular file, at the \<^verbatim>\<open>.md\<close> path of an output path that
  mirrors a regular file of the input tree: the output path with the extension of its
  last component replaced by \<^verbatim>\<open>.md\<close>. So nothing is deleted, and a regular file, of the
  input tree or not, is changed only if it lies at such a \<^verbatim>\<open>.md\<close> path.
\<close>

theorem C9_frame:
  assumes "literateToMd env sched w inp out = Some (w', t)"
  shows "(lookup w' q = lookup w q
       \<or> (lookup w q = None \<and> lookup w' q = Some Dir
           \<and> (\<exists>rel r c. r \<noteq> [] \<and> q @ r = out @ rel \<and> lookup w' (inp @ rel) = Some (File c)))
       \<or> (lookup w q \<noteq> Some Dir
           \<and> (\<exists>rel c m. out @ rel \<noteq> []
                 \<and> q = butlast (out @ rel) @ [fst (parse_base (last (out @ rel))) @ ''.md'']
                 \<and> lookup w' q = Some (File m) \<and> lookup w' (inp @ rel) = Some (File c))))
     \<and> (\<forall>c. lookup w q = Some (File c)
           \<longrightarrow> (\<forall>rel. out @ rel \<noteq> []
                  \<longrightarrow> q \<noteq> butlast (out @ rel) @ [fst (parse_base (last (out @ rel))) @ ''.md''])
           \<longrightarrow> lookup w' q = Some (File c))"
proof -
  have md: "\<And>p. p \<noteq> [] \<Longrightarrow> md_path p = butlast p @ [fst (parse_base (last p)) @ ''.md'']"
    by (simp add: md_path_def path_parse_def path_format_def split: prod.splits)
  define M where "M = (\<lambda>rel. butlast (out @ rel) @ [fst (parse_base (last (out @ rel))) @ ''.md''])"
  from walk_frame[OF assms, of q]
  have 1: "lookup w' q = lookup w q
       \<or> (lookup w q = None \<and> lookup w' q = Some Dir
           \<and> (\<exists>rel r c. r \<noteq> [] \<and> q @ r = out @ rel \<and> lookup w' (inp @ rel) = Some (File c)))
       \<or> (lookup w q \<noteq> Some Dir
           \<and> (\<exists>rel c m. out @ rel \<noteq> [] \<and> q = M rel
                 \<and> lookup w' q = Some (File m) \<and> lookup w' (inp @ rel) = Some (File c)))"
    unfolding touched_def M_def using md by metis
  then have 2: "\<forall>c. lookup w q = Some (File c)
           \<longrightarrow> (\<forall>rel. out @ rel \<noteq> [] \<longrightarrow> q \<noteq> M rel)
           \<longrightarrow> lookup w' q = Some (File c)"
    by auto
  from 1 2 show ?thesis unfolding M_def by (intro conjI)
qed

text \<open>
  The claim as the specification states it fails: an input file that lies at the \<^verbatim>\<open>.md\<close>
  path of a converted file is overwritten. With the same directory as input and output
  root, the conversion of \<^verbatim>\<open>d/a.foo\<close> overwrites the input file \<^verbatim>\<open>d/a.md\<close>; and with the
  file \<^verbatim>\<open>src/x.md\<close> as input and \<^verbatim>\<open>src/x.foo\<close> as output, the script overwrites the file it
  has read.
\<close>

theorem C9_counterexample:
  "lookup overlap_world [''d'', ''a.md''] = Some (File ''keep'')
   \<and> map_option (\<lambda>(w', t). (lookup w' [''d'', ''a.md''], outcome t))
        (literateToMd demo_env [[], [], [0], [0], [0], [0], [1]] overlap_world [''d''] [''d''])
     = Some (Some (File (fence @ ''c'' @ [LF] @ ''x'' @ [LF] @ fence)), Some (Inr ()))
   \<and> lookup single_world [''src'', ''x.md''] = Some (File ''x'')
   \<and> map_option (\<lambda>(w', t). (lookup w' [''src'', ''x.md''], outcome t))
        (literateToMd demo_env [[], [], [], []] single_world [''src'', ''x.md''] [''src'', ''x.foo''])
     = Some (Some (File (fence @ ''c'' @ [LF] @ ''x'' @ [LF] @ fence)), Some (Inr ()))"
  by code_simp

theorem C9_witness:
  "\<exists>w'. literateToMd demo_env
           [[], [], [2], [0], [2], [1], [2, 0], [2, 0], [0], [2, 0], [0], [0], [2, 0]]
           demo_world [''in''] [''out''] = Some (w', Settled (Inr ()))
     \<and> lookup w' [''in'', ''a.foo''] = lookup demo_world [''in'', ''a.foo'']
     \<and> lookup w' [''out'', ''sub'', ''b.md'']
         = Some (File (fence @ ''c'' @ [LF] @ ''y'' @ [LF] @ fence))"
proof -
  let ?sched = "[[], [], [2], [0], [2], [1], [2, 0], [2, 0], [0], [2, 0], [0], [0], [2, 0]]"
  obtain w' where run: "literateToMd demo_env ?sched demo_world [''in''] [''out''] = Some (w', Settled (Inr ()))"
    and b: "lookup w' [''out'', ''sub'', ''b.md''] = Some (File (fence @ ''c'' @ [LF] @ ''y'' @ [LF] @ fence))"
  proof -
    have "map_option (\<lambda>(w', t). (lookup w' [''out'', ''sub'', ''b.md''], t))
            (literateToMd demo_env ?sched demo_world [''in''] [''out''])
          = Some (Some (File (fence @ ''c'' @ [LF] @ ''y'' @ [LF] @ fence)), Settled (Inr ()))"
      by code_simp
    then show ?thesis using that by (auto split: prod.splits)
  qed
  have md: "\<And>rel. [''in'', ''a.foo''] \<noteq> butlast ([''out''] @ rel) @ [fst (parse_base (last ([''out''] @ rel))) @ ''.md'']"
  proof
    fix rel assume e: "[''in'', ''a.foo''] = butlast ([''out''] @ rel) @ [fst (parse_base (last ([''out''] @ rel))) @ ''.md'']"
    show False
    proof (cases rel rule: rev_cases)
      case Nil with e show ?thesis by simp
    next
      case (snoc ys y) with e show ?thesis by simp
    qed
  qed
  have old: "lookup demo_world [''in'', ''a.foo''] = Some (File ''x'')" by code_simp
  from C9_frame[OF run, of "[''in'', ''a.foo'']"] md old
  have "lookup w' [''in'', ''a.foo''] = lookup demo_world [''in'', ''a.foo'']" by auto
  with run b show ?thesis by blast
qed




end
